theory Spec2Isabelle
  imports Complex_Main
begin

section \<open>LinRZ: the compression engine of \<^verbatim>\<open>linrz.py\<close>\<close>

text \<open>
  A shallow embedding of \<^verbatim>\<open>CompressionEngine\<close> and of the two thread-starting methods of
  \<^verbatim>\<open>YUSRLinRZGUI\<close>. Paths are lists of components resolved against the current
  working directory, which is the root of the modelled file tree; the components are
  ordinary names (no \<^verbatim>\<open>..\<close>, no symbolic links). Strings are byte strings, and
  \<^verbatim>\<open>str.upper\<close>/\<^verbatim>\<open>str.lower\<close> are modelled on ASCII letters.
\<close>

subsection \<open>Strings\<close>

definition lowers :: string where
  "lowers = ''abcdefghijklmnopqrstuvwxyz''"

definition uppers :: string where
  "uppers = ''ABCDEFGHIJKLMNOPQRSTUVWXYZ''"

definition upper_char :: "char \<Rightarrow> char" where
  "upper_char c = (case map_of (zip lowers uppers) c of Some u \<Rightarrow> u | None \<Rightarrow> c)"

definition lower_char :: "char \<Rightarrow> char" where
  "lower_char c = (case map_of (zip uppers lowers) c of Some l \<Rightarrow> l | None \<Rightarrow> c)"

text \<open>\<^verbatim>\<open>s.upper()\<close> and \<^verbatim>\<open>s.lower()\<close>.\<close>

definition upper :: "string \<Rightarrow> string" where
  "upper s = map upper_char s"

definition lower :: "string \<Rightarrow> string" where
  "lower s = map lower_char s"

text \<open>\<^verbatim>\<open>s.split('.')\<close>: never empty, one more piece than there are dots.\<close>

fun split_dot :: "string \<Rightarrow> string list" where
  "split_dot [] = [[]]"
| "split_dot (c # cs) =
     (if c = CHR ''.'' then [] # split_dot cs
      else (case split_dot cs of [] \<Rightarrow> [[c]] | w # ws \<Rightarrow> (c # w) # ws))"

text \<open>\<^verbatim>\<open>s.lstrip('.')\<close> and \<^verbatim>\<open>s.endswith('.')\<close>.\<close>

definition lstrip_dot :: "string \<Rightarrow> string" where
  "lstrip_dot s = dropWhile (\<lambda>c. c = CHR ''.'') s"

definition endswith_dot :: "string \<Rightarrow> bool" where
  "endswith_dot s = (s \<noteq> [] \<and> last s = CHR ''.'')"

text \<open>\<^verbatim>\<open>s.rfind('.')\<close>: the index of the last dot, \<open>None\<close> for Python's \<open>-1\<close>.\<close>

definition rfind_dot :: "string \<Rightarrow> nat option" where
  "rfind_dot s =
     (let j = length (takeWhile (\<lambda>c. c \<noteq> CHR ''.'') (rev s))
      in if j = length s then None else Some (length s - 1 - j))"

subsection \<open>Paths (\<^verbatim>\<open>pathlib.PurePath\<close>)\<close>

type_synonym path = "string list"

text \<open>\<^verbatim>\<open>p.name\<close>: the final component, empty for the path \<^verbatim>\<open>.\<close>.\<close>

definition name :: "path \<Rightarrow> string" where
  "name p = (if p = [] then [] else last p)"

text \<open>\<^verbatim>\<open>p.parent\<close>: the path without its final component; \<^verbatim>\<open>.\<close> is its own parent.\<close>

definition parent :: "path \<Rightarrow> path" where
  "parent p = butlast p"

text \<open>
  \<^verbatim>\<open>p.relative_to(q)\<close> for a \<open>p\<close> that starts with \<open>q\<close>, the only way the engine
  calls it (every walked path starts with the source, hence with the source's parent).
\<close>

definition relative_to :: "path \<Rightarrow> path \<Rightarrow> path" where
  "relative_to p q = drop (length q) p"

text \<open>\<^verbatim>\<open>str(p)\<close>: the components joined by \<^verbatim>\<open>/\<close>, and \<^verbatim>\<open>.\<close> for the empty path.\<close>

fun join_slash :: "string list \<Rightarrow> string" where
  "join_slash [] = []"
| "join_slash [c] = c"
| "join_slash (c # cs) = c @ ''/'' @ join_slash cs"

definition str_path :: "path \<Rightarrow> string" where
  "str_path p = (if p = [] then ''.'' else join_slash p)"

text \<open>\<^verbatim>\<open>p.suffixes\<close> and \<^verbatim>\<open>p.stem\<close>, as \<^verbatim>\<open>pathlib\<close> defines them on the name.\<close>

definition suffixes :: "path \<Rightarrow> string list" where
  "suffixes p =
     (let n = name p
      in if endswith_dot n then []
         else map (\<lambda>s. ''.'' @ s) (tl (split_dot (lstrip_dot n))))"

definition stem :: "path \<Rightarrow> string" where
  "stem p =
     (let n = name p
      in case rfind_dot n of
           None \<Rightarrow> n
         | Some i \<Rightarrow> if 0 < i \<and> i < length n - 1 then take i n else n)"

text \<open>\<^verbatim>\<open>Path(s)\<close> for a string without \<^verbatim>\<open>/\<close>: one component, none for the empty string.\<close>

definition Path_of_name :: "string \<Rightarrow> path" where
  "Path_of_name s = (if s = [] then [] else [s])"

subsection \<open>The file tree\<close>

text \<open>
  A regular file holds its bytes (\<^verbatim>\<open>st_size\<close> is their number); a directory lists its
  entries in the order the operating system enumerates them.
\<close>

datatype node = File string | Dir "(string \<times> node) list"

fun lookup :: "node \<Rightarrow> path \<Rightarrow> node option" where
  "lookup n [] = Some n"
| "lookup (File b) (c # cs) = None"
| "lookup (Dir es) (c # cs) =
     (case map_of es c of None \<Rightarrow> None | Some n \<Rightarrow> lookup n cs)"

text \<open>\<^verbatim>\<open>p.exists()\<close>, \<^verbatim>\<open>p.is_file()\<close>, \<^verbatim>\<open>p.is_dir()\<close>, \<^verbatim>\<open>p.stat().st_size\<close>.\<close>

definition exists :: "node \<Rightarrow> path \<Rightarrow> bool" where
  "exists t p = (lookup t p \<noteq> None)"

definition is_file :: "node \<Rightarrow> path \<Rightarrow> bool" where
  "is_file t p = (case lookup t p of Some (File b) \<Rightarrow> True | _ \<Rightarrow> False)"

definition is_dir :: "node \<Rightarrow> path \<Rightarrow> bool" where
  "is_dir t p = (case lookup t p of Some (Dir es) \<Rightarrow> True | _ \<Rightarrow> False)"

definition st_size :: "node \<Rightarrow> path \<Rightarrow> nat" where
  "st_size t p = (case lookup t p of Some (File b) \<Rightarrow> length b | _ \<Rightarrow> 0)"

text \<open>
  \<^verbatim>\<open>p.rglob('*')\<close>: every path strictly below \<open>p\<close>, hidden names included. The
  entries of a directory come first, then the walk of each subdirectory in turn.
\<close>

fun walk :: "node \<Rightarrow> path \<Rightarrow> path list" where
  "walk (File b) p = []"
| "walk (Dir es) p =
     map (\<lambda>e. p @ [fst e]) es @ concat (map (\<lambda>e. walk (snd e) (p @ [fst e])) es)"

definition rglob :: "node \<Rightarrow> path \<Rightarrow> path list" where
  "rglob t p = (case lookup t p of None \<Rightarrow> [] | Some n \<Rightarrow> walk n p)"

text \<open>Replacing or adding the entry \<open>c\<close> of a directory listing.\<close>

fun set_entry :: "string \<Rightarrow> node \<Rightarrow> (string \<times> node) list \<Rightarrow> (string \<times> node) list" where
  "set_entry c n [] = [(c, n)]"
| "set_entry c n (e # es) = (if fst e = c then (c, n) # es else e # set_entry c n es)"

text \<open>
  \<^verbatim>\<open>p.mkdir(parents=True, exist_ok=True)\<close>: \<open>None\<close> is the \<^verbatim>\<open>OSError\<close> raised when
  the path or one of its ancestors is a regular file.
  A directory it creates is listed last;
  the engine lists no directory after creating one, so the place is never observed.
\<close>

fun mkdir_p :: "node \<Rightarrow> path \<Rightarrow> node option" where
  "mkdir_p (Dir es) [] = Some (Dir es)"
| "mkdir_p (File b) p = None"
| "mkdir_p (Dir es) (c # cs) =
     (case map_of es c of
        None \<Rightarrow> (case mkdir_p (Dir []) cs of
                   None \<Rightarrow> None
                 | Some n \<Rightarrow> Some (Dir (es @ [(c, n)])))
      | Some n \<Rightarrow> (case mkdir_p n cs of
                     None \<Rightarrow> None
                   | Some n' \<Rightarrow> Some (Dir (set_entry c n' es))))"

text \<open>
  A name that is new to a directory appears in its listing wherever the file system puts
  it: the place is a parameter, a function of the new name and of the names already
  listed. A name that is already listed keeps its place.
\<close>

definition place :: "(string \<Rightarrow> string list \<Rightarrow> nat) \<Rightarrow> string \<Rightarrow> node
    \<Rightarrow> (string \<times> node) list \<Rightarrow> (string \<times> node) list" where
  "place sl c n es =
     (if c \<in> set (map fst es) then set_entry c n es
      else (let i = sl c (map fst es) in take i es @ (c, n) # drop i es))"

text \<open>
  Opening a file for writing (\<^verbatim>\<open>open(path, 'wb')\<close>, which every archive writer does
  first) and storing bytes in it: the parent must be a directory and the path must not be
  one; \<open>None\<close> is the \<^verbatim>\<open>OSError\<close> otherwise.
\<close>

fun write_file :: "(string \<Rightarrow> string list \<Rightarrow> nat) \<Rightarrow> node \<Rightarrow> path \<Rightarrow> string \<Rightarrow> node option" where
  "write_file sl n [] b = None"
| "write_file sl (File x) (c # cs) b = None"
| "write_file sl (Dir es) [c] b =
     (case map_of es c of
        Some (Dir ds) \<Rightarrow> None
      | _ \<Rightarrow> Some (Dir (place sl c (File b) es)))"
| "write_file sl (Dir es) (c # cs) b =
     (case map_of es c of
        None \<Rightarrow> None
      | Some n \<Rightarrow> (case write_file sl n cs b of
                     None \<Rightarrow> None
                   | Some n' \<Rightarrow> Some (Dir (set_entry c n' es))))"

text \<open>
  More bytes reaching a file that is already open: the regular file at the path holds \<open>b\<close>
  afterwards, and nothing else changes.
\<close>

fun set_bytes :: "node \<Rightarrow> path \<Rightarrow> string \<Rightarrow> node" where
  "set_bytes (File x) [] b = File b"
| "set_bytes (Dir es) [] b = Dir es"
| "set_bytes (File x) (c # cs) b = File x"
| "set_bytes (Dir es) (c # cs) b =
     (case map_of es c of
        None \<Rightarrow> Dir es
      | Some n \<Rightarrow> Dir (set_entry c (set_bytes n cs b) es))"

subsection \<open>The archive libraries\<close>

text \<open>
  The archive handles the engine opens: \<^verbatim>\<open>zipfile.ZipFile\<close>, \<^verbatim>\<open>tarfile.open\<close> with
  its mode string, \<^verbatim>\<open>py7zr.SevenZipFile\<close> and \<^verbatim>\<open>rarfile.RarFile\<close>.
\<close>

datatype codec = ZipFile | TarFile string | SevenZipFile | RarFile

text \<open>
  Every call the engine makes into an archive library, in the order it makes them: opening
  an archive for writing, adding the file at a path under an archive name, leaving the
  \<^verbatim>\<open>with\<close> block of a written archive, opening an archive for reading, extracting one
  member into a directory, extracting all of them, leaving the \<^verbatim>\<open>with\<close> block of a read
  archive. Each is listed with its outcome: it returned, or it raised.
\<close>

datatype lib_call =
    OpenWrite codec path
  | Add path path
  | CloseWrite
  | OpenRead codec path
  | Extract string path
  | ExtractAll path
  | CloseRead

datatype outcome = Returned | Raised

text \<open>
  The errors the engine raises itself, the \<^verbatim>\<open>OSError\<close> of an operating-system call, and
  \<open>ArchiveError\<close> for whatever exception, of whatever class, the named library call
  raised.
\<close>

datatype error =
    FileNotFoundError string
  | ValueError string
  | ImportError string
  | ZeroDivisionError
  | OSError path
  | ArchiveError lib_call

text \<open>
  What the program does not define is a parameter: whether the optional libraries were
  imported, whether a progress callback is installed, where the file system lists a new
  name, and the archive libraries themselves: the bytes of an open archive that have
  reached the disk once it holds a list of named members, the bytes it has after a normal
  end of the \<^verbatim>\<open>with\<close> block and after one left by an exception, whether adding a file
  returns or raises, whether leaving the \<^verbatim>\<open>with\<close> block returns or raises (given
  whether the body ended normally, and the members held), the member names read from
  bytes, and what extracting a member does to the file tree (\<open>None\<close> is the library
  raising).
\<close>

record env =
  HAS_7Z :: bool
  HAS_RAR :: bool
  progress_callback :: bool
  slot :: "string \<Rightarrow> string list \<Rightarrow> nat"
  flushed :: "codec \<Rightarrow> (path \<times> string) list \<Rightarrow> string"
  encode :: "codec \<Rightarrow> (path \<times> string) list \<Rightarrow> string"
  aborted :: "codec \<Rightarrow> (path \<times> string) list \<Rightarrow> string"
  add_ok :: "codec \<Rightarrow> path \<Rightarrow> node \<Rightarrow> bool"
  close_ok :: "codec \<Rightarrow> bool \<Rightarrow> (path \<times> string) list \<Rightarrow> bool"
  namelist :: "codec \<Rightarrow> string \<Rightarrow> string list option"
  extract_member :: "codec \<Rightarrow> string \<Rightarrow> string \<Rightarrow> path \<Rightarrow> node \<Rightarrow> node option"

text \<open>
  The engine's \<^verbatim>\<open>self.stats\<close>, the file tree, the messages the progress callback has
  received and the library calls made so far (both oldest first), and the members, each
  an archive name with its bytes, of the archive that was opened for writing last.
\<close>

record world =
  fs :: node
  stats_files :: nat
  stats_size :: nat
  progress :: "string list"
  calls :: "(lib_call \<times> outcome) list"
  held :: "(path \<times> string) list"

definition update_progress :: "env \<Rightarrow> string \<Rightarrow> world \<Rightarrow> world" where
  "update_progress E message w =
     (if progress_callback E then w\<lparr>progress := progress w @ [message]\<rparr> else w)"

definition call :: "lib_call \<Rightarrow> world \<Rightarrow> world" where
  "call c w = w\<lparr>calls := calls w @ [(c, Returned)]\<rparr>"

definition raised :: "lib_call \<Rightarrow> world \<Rightarrow> world" where
  "raised c w = w\<lparr>calls := calls w @ [(c, Raised)]\<rparr>"

definition read_bytes :: "node \<Rightarrow> path \<Rightarrow> string" where
  "read_bytes t p = (case lookup t p of Some (File b) \<Rightarrow> b | _ \<Rightarrow> [])"

subsection \<open>Writing archives\<close>

text \<open>
  \<^verbatim>\<open>tarfile.add\<close> returns without storing anything when the file is the archive
  itself (\<^verbatim>\<open>os.path.abspath(name) == self.name\<close>); \<^verbatim>\<open>ZipFile.write\<close> and
  \<^verbatim>\<open>SevenZipFile.write\<close> have no such test.
\<close>

fun skips_itself :: "codec \<Rightarrow> bool" where
  "skips_itself (TarFile m) = True"
| "skips_itself k = False"

text \<open>
  \<^verbatim>\<open>zf.write(file_path, arcname)\<close> and \<^verbatim>\<open>tf.add(file_path, arcname=arcname)\<close> on the
  archive open at \<open>output_file\<close>: the file is read as it is now, the archive holds one
  more member, and its bytes on disk have grown. \<open>None\<close> is the call raising.
\<close>

definition lib_add :: "env \<Rightarrow> codec \<Rightarrow> path \<Rightarrow> path \<Rightarrow> path \<Rightarrow> world \<Rightarrow> world option" where
  "lib_add E k output_file file_path arcname w =
     (if skips_itself k \<and> file_path = output_file then Some w
      else if \<not> add_ok E k file_path (fs w) then None
      else (let ms = held w @ [(arcname, read_bytes (fs w) file_path)]
            in Some (w\<lparr>held := ms,
                       fs := set_bytes (fs w) output_file (flushed E k ms)\<rparr>)))"

text \<open>
  Lines 126 to 128, after an addition in the loop has returned: the file is counted, its
  size is read and accumulated, and a message is sent.
\<close>

definition count_added :: "env \<Rightarrow> path \<Rightarrow> path \<Rightarrow> world \<Rightarrow> world" where
  "count_added E file_path arcname w =
     (let w1 = w\<lparr>stats_files := stats_files w + 1\<rparr>;
          w2 = w1\<lparr>stats_size := stats_size w1 + st_size (fs w1) file_path\<rparr>
      in update_progress E (''Adding: '' @ str_path arcname) w2)"

text \<open>
  The loop \<^verbatim>\<open>for file_path in source.rglob('*')\<close> of the three writers, which differ
  only in the library they call: each regular file is added under its path relative to
  \<^verbatim>\<open>source.parent\<close>. An addition that raises ends the loop.
\<close>

fun add_files :: "env \<Rightarrow> codec \<Rightarrow> path \<Rightarrow> path \<Rightarrow> path list \<Rightarrow> world
    \<Rightarrow> error option \<times> world" where
  "add_files E k source output_file [] w = (None, w)"
| "add_files E k source output_file (file_path # ps) w =
     (if is_file (fs w) file_path then
        (case lib_add E k output_file file_path (relative_to file_path (parent source)) w of
           None \<Rightarrow>
             (Some (ArchiveError (Add file_path (relative_to file_path (parent source)))),
              raised (Add file_path (relative_to file_path (parent source))) w)
         | Some w0 \<Rightarrow>
             add_files E k source output_file ps
               (count_added E file_path (relative_to file_path (parent source))
                  (call (Add file_path (relative_to file_path (parent source))) w0)))
      else add_files E k source output_file ps w)"

text \<open>The body of the \<^verbatim>\<open>with\<close> block: one file, or the walk of a directory.\<close>

definition add_source :: "env \<Rightarrow> codec \<Rightarrow> path \<Rightarrow> path \<Rightarrow> world \<Rightarrow> error option \<times> world" where
  "add_source E k source output_file w =
     (if is_file (fs w) source then
        (case lib_add E k output_file source [name source] w of
           None \<Rightarrow>
             (Some (ArchiveError (Add source [name source])),
              raised (Add source [name source]) w)
         | Some w0 \<Rightarrow>
             (let w1 = call (Add source [name source]) w0;
                  w2 = w1\<lparr>stats_files := 1\<rparr>;
                  w3 = w2\<lparr>stats_size := st_size (fs w2) source\<rparr>;
                  w4 = update_progress E (''Added: '' @ name source) w3
              in (None, w4)))
      else add_files E k source output_file (rglob (fs w) source) w)"

text \<open>
  \<^verbatim>\<open>with Library(output_file, mode) as handle: body\<close>. Opening creates the file, or
  empties it, and the archive holds no member yet. The block is left whether the body
  raised or not, and the library then leaves on disk the bytes of a finished archive or
  those of an abandoned one. Leaving the block can raise as well, and an exception
  raised there replaces the one of the body.
\<close>

definition write_archive :: "env \<Rightarrow> codec \<Rightarrow> path \<Rightarrow> path \<Rightarrow> world \<Rightarrow> error option \<times> world" where
  "write_archive E k source output_file w =
     (case write_file (slot E) (fs w) output_file (flushed E k []) of
        None \<Rightarrow>
          (Some (ArchiveError (OpenWrite k output_file)), raised (OpenWrite k output_file) w)
      | Some t \<Rightarrow>
          (let w1 = call (OpenWrite k output_file) (w\<lparr>fs := t, held := []\<rparr>);
               body = add_source E k source output_file w1
           in if close_ok E k (fst body = None) (held (snd body))
              then (let w2 = call CloseWrite (snd body);
                        b = (case fst body of
                               None \<Rightarrow> encode E k (held w2)
                             | Some e \<Rightarrow> aborted E k (held w2))
                    in (fst body, w2\<lparr>fs := set_bytes (fs w2) output_file b\<rparr>))
              else (let w2 = raised CloseWrite (snd body)
                    in (Some (ArchiveError CloseWrite),
                        w2\<lparr>fs := set_bytes (fs w2) output_file (aborted E k (held w2))\<rparr>))))"

definition compress_zip :: "env \<Rightarrow> path \<Rightarrow> path \<Rightarrow> world \<Rightarrow> error option \<times> world" where
  "compress_zip E source output_file w = write_archive E ZipFile source output_file w"

text \<open>\<^verbatim>\<open>mode_map.get(compression, 'w')\<close>.\<close>

definition mode_map :: "string \<Rightarrow> string" where
  "mode_map compression =
     (if compression = ''gz'' then ''w:gz''
      else if compression = ''bz2'' then ''w:bz2''
      else if compression = ''xz'' then ''w:xz''
      else ''w'')"

definition compress_tar :: "env \<Rightarrow> path \<Rightarrow> path \<Rightarrow> string \<Rightarrow> world \<Rightarrow> error option \<times> world" where
  "compress_tar E source output_file compression w =
     write_archive E (TarFile (mode_map compression)) source output_file w"

definition compress_7z :: "env \<Rightarrow> path \<Rightarrow> path \<Rightarrow> world \<Rightarrow> error option \<times> world" where
  "compress_7z E source output_file w =
     (if \<not> HAS_7Z E
      then (Some (ImportError ''py7zr not installed. Install with: pip install py7zr''), w)
      else write_archive E SevenZipFile source output_file w)"

subsection \<open>\<^verbatim>\<open>CompressionEngine.compress\<close>\<close>

record compress_result =
  files :: nat
  original_size :: nat
  compressed_size :: nat
  ratio :: rat

text \<open>Python's \<^verbatim>\<open>a / b\<close> on integers, in exact arithmetic.\<close>

definition truediv :: "nat \<Rightarrow> nat \<Rightarrow> error + rat" where
  "truediv a b = (if b = 0 then Inl ZeroDivisionError else Inr (of_nat a / of_nat b))"

text \<open>
  \<^verbatim>\<open>(1 - output_size / self.stats['size']) * 100 if self.stats['size'] > 0 else 0\<close>:
  the condition is evaluated
  first, the division only when it holds.
\<close>

definition compression_ratio :: "nat \<Rightarrow> nat \<Rightarrow> error + rat" where
  "compression_ratio output_size sz =
     (if sz > 0
      then (case truediv output_size sz of
              Inl e \<Rightarrow> Inl e
            | Inr q \<Rightarrow> Inr ((1 - q) * 100))
      else Inr 0)"

definition reset_stats :: "world \<Rightarrow> world" where
  "reset_stats w = w\<lparr>stats_files := 0, stats_size := 0\<rparr>"

text \<open>The \<^verbatim>\<open>if\<close>/\<^verbatim>\<open>elif\<close> chain on \<^verbatim>\<open>format_type\<close>.\<close>

definition compress_dispatch :: "env \<Rightarrow> path \<Rightarrow> path \<Rightarrow> string \<Rightarrow> world \<Rightarrow> error option \<times> world" where
  "compress_dispatch E source output_file format_type w =
     (if format_type = ''zip'' then compress_zip E source output_file w
      else if format_type \<in> set [''tar.gz'', ''tgz''] then compress_tar E source output_file ''gz'' w
      else if format_type = ''tar.bz2'' then compress_tar E source output_file ''bz2'' w
      else if format_type = ''tar.xz'' then compress_tar E source output_file ''xz'' w
      else if format_type = ''7z'' then compress_7z E source output_file w
      else (Some (ValueError (''Unsupported compression format: '' @ format_type)), w))"

text \<open>Lines 70 to 78: the size of the written archive, the ratio and the returned dictionary.\<close>

definition compress_stats :: "path \<Rightarrow> world \<Rightarrow> (error + compress_result) \<times> world" where
  "compress_stats output_file w =
     (if \<not> exists (fs w) output_file then (Inl (OSError output_file), w)
      else
        (let output_size = st_size (fs w) output_file
         in (case compression_ratio output_size (stats_size w) of
               Inl e \<Rightarrow> (Inl e, w)
             | Inr r \<Rightarrow>
                 (Inr \<lparr>files = stats_files w,
                       original_size = stats_size w,
                       compressed_size = output_size,
                       ratio = r\<rparr>, w))))"

definition compress :: "env \<Rightarrow> path \<Rightarrow> path \<Rightarrow> string \<Rightarrow> world \<Rightarrow> (error + compress_result) \<times> world" where
  "compress E source output_file format_type w =
     (let w0 = reset_stats w
      in if \<not> exists (fs w0) source
         then (Inl (FileNotFoundError (''Source path not found: '' @ str_path source)), w0)
         else
           (let w1 = update_progress E
                       (''Starting compression to '' @ upper format_type @ ''...'') w0
            in (case compress_dispatch E source output_file format_type w1 of
                  (Some e, w2) \<Rightarrow> (Inl e, w2)
                | (None, w2) \<Rightarrow> compress_stats output_file w2)))"

subsection \<open>Reading archives\<close>

text \<open>
  Opening an archive for reading and listing its members (\<^verbatim>\<open>namelist\<close>,
  \<^verbatim>\<open>getnames\<close>, \<^verbatim>\<open>getmembers\<close>): the bytes read and the member names. The
  opening raises on a path that is no regular file and on bytes the library cannot read
  as an archive; no \<^verbatim>\<open>with\<close> block is entered then.
\<close>

definition open_read :: "env \<Rightarrow> codec \<Rightarrow> path \<Rightarrow> world \<Rightarrow> (error + string \<times> string list) \<times> world" where
  "open_read E k archive w =
     (case lookup (fs w) archive of
        Some (File b) \<Rightarrow>
          (case namelist E k b of
             None \<Rightarrow> (Inl (ArchiveError (OpenRead k archive)), raised (OpenRead k archive) w)
           | Some members \<Rightarrow> (Inr (b, members), call (OpenRead k archive) w))
      | _ \<Rightarrow> (Inl (ArchiveError (OpenRead k archive)), raised (OpenRead k archive) w))"

text \<open>
  \<^verbatim>\<open>for member in members\<close>: a message, then the extraction of that member, which
  may raise.
\<close>

fun extract_each :: "env \<Rightarrow> codec \<Rightarrow> string \<Rightarrow> path \<Rightarrow> string list \<Rightarrow> world \<Rightarrow> error option \<times> world" where
  "extract_each E k b output_path [] w = (None, w)"
| "extract_each E k b output_path (member # ms) w =
     (let w1 = update_progress E (''Extracting: '' @ member) w
      in case extract_member E k b member output_path (fs w1) of
           None \<Rightarrow>
             (Some (ArchiveError (Extract member output_path)),
              raised (Extract member output_path) w1)
         | Some t \<Rightarrow>
             extract_each E k b output_path ms (call (Extract member output_path) (w1\<lparr>fs := t\<rparr>)))"

text \<open>\<^verbatim>\<open>extractall\<close>: every member in turn, with no message.\<close>

fun extractall :: "env \<Rightarrow> codec \<Rightarrow> string \<Rightarrow> path \<Rightarrow> string list \<Rightarrow> node \<Rightarrow> node option" where
  "extractall E k b output_path [] t = Some t"
| "extractall E k b output_path (member # ms) t =
     (case extract_member E k b member output_path t of
        None \<Rightarrow> None
      | Some t' \<Rightarrow> extractall E k b output_path ms t')"

fun report_each :: "env \<Rightarrow> string list \<Rightarrow> world \<Rightarrow> world" where
  "report_each E [] w = w"
| "report_each E (member # ms) w =
     report_each E ms (update_progress E (''Extracting: '' @ member) w)"

definition decompress_with :: "env \<Rightarrow> codec \<Rightarrow> path \<Rightarrow> path \<Rightarrow> world \<Rightarrow> error option \<times> world" where
  "decompress_with E k archive output_path w =
     (case open_read E k archive w of
        (Inl e, w1) \<Rightarrow> (Some e, w1)
      | (Inr (b, members), w1) \<Rightarrow>
          (let body = extract_each E k b output_path members (w1\<lparr>stats_files := length members\<rparr>)
           in (fst body, call CloseRead (snd body))))"

definition decompress_zip :: "env \<Rightarrow> path \<Rightarrow> path \<Rightarrow> world \<Rightarrow> error option \<times> world" where
  "decompress_zip E archive output_path w = decompress_with E ZipFile archive output_path w"

definition decompress_rar :: "env \<Rightarrow> path \<Rightarrow> path \<Rightarrow> world \<Rightarrow> error option \<times> world" where
  "decompress_rar E archive output_path w =
     (if \<not> HAS_RAR E
      then (Some (ImportError ''rarfile not installed. Install with: pip install rarfile''), w)
      else decompress_with E RarFile archive output_path w)"

definition decompress_7z :: "env \<Rightarrow> path \<Rightarrow> path \<Rightarrow> world \<Rightarrow> error option \<times> world" where
  "decompress_7z E archive output_path w =
     (if \<not> HAS_7Z E
      then (Some (ImportError ''py7zr not installed. Install with: pip install py7zr''), w)
      else
        (case open_read E SevenZipFile archive w of
           (Inl e, w1) \<Rightarrow> (Some e, w1)
         | (Inr (b, members), w1) \<Rightarrow>
             (let w2 = w1\<lparr>stats_files := length members\<rparr>
              in case extractall E SevenZipFile b output_path members (fs w2) of
                   None \<Rightarrow>
                     (Some (ArchiveError (ExtractAll output_path)),
                      call CloseRead (raised (ExtractAll output_path) w2))
                 | Some t \<Rightarrow>
                     (None,
                      call CloseRead
                        (report_each E members (call (ExtractAll output_path) (w2\<lparr>fs := t\<rparr>)))))))"

definition decompress_tar :: "env \<Rightarrow> path \<Rightarrow> path \<Rightarrow> world \<Rightarrow> error option \<times> world" where
  "decompress_tar E archive output_path w =
     decompress_with E (TarFile ''r:*'') archive output_path w"

subsection \<open>\<^verbatim>\<open>CompressionEngine.decompress\<close>\<close>

text \<open>\<^verbatim>\<open>''.join(archive.suffixes).lower()\<close>.\<close>

definition archive_ext :: "path \<Rightarrow> string" where
  "archive_ext archive = lower (concat (suffixes archive))"

text \<open>The \<^verbatim>\<open>if\<close>/\<^verbatim>\<open>elif\<close> chain on \<^verbatim>\<open>ext\<close>.\<close>

definition decompress_dispatch :: "env \<Rightarrow> path \<Rightarrow> path \<Rightarrow> string \<Rightarrow> world \<Rightarrow> error option \<times> world" where
  "decompress_dispatch E archive output_path ext w =
     (if ext = ''.zip'' then decompress_zip E archive output_path w
      else if ext = ''.rar'' then decompress_rar E archive output_path w
      else if ext = ''.7z'' then decompress_7z E archive output_path w
      else if ext \<in> set [''.tar.gz'', ''.tgz'', ''.tar.bz2'', ''.tar.xz'', ''.tar'']
        then decompress_tar E archive output_path w
      else (Some (ValueError (''Unsupported archive format: '' @ ext)), w))"

text \<open>
  The returned dictionary; its key \<^verbatim>\<open>'files'\<close> is the field \<open>files_extracted\<close>.
\<close>

record decompress_result =
  files_extracted :: nat
  output_path :: path

text \<open>
  \<open>output_dir\<close> is \<open>None\<close> or a path; the returned \<^verbatim>\<open>output_path\<close> is kept relative
  to the working directory, of which \<^verbatim>\<open>absolute()\<close> is the extension.
\<close>

definition decompress :: "env \<Rightarrow> path \<Rightarrow> path option \<Rightarrow> world \<Rightarrow> (error + decompress_result) \<times> world" where
  "decompress E archive output_dir w =
     (let w0 = reset_stats w
      in if \<not> exists (fs w0) archive
         then (Inl (FileNotFoundError (''Archive not found: '' @ str_path archive)), w0)
         else
           (let out = (case output_dir of
                         None \<Rightarrow> Path_of_name (stem archive)
                       | Some d \<Rightarrow> d)
            in (case mkdir_p (fs w0) out of
                  None \<Rightarrow> (Inl (OSError out), w0)
                | Some t \<Rightarrow>
                    (let w1 = update_progress E ''Starting extraction...'' (w0\<lparr>fs := t\<rparr>);
                         ext = archive_ext archive
                     in (case decompress_dispatch E archive out ext w1 of
                           (Some e, w2) \<Rightarrow> (Inl e, w2)
                         | (None, w2) \<Rightarrow>
                             (Inr \<lparr>files_extracted = stats_files w2,
                                   output_path = out\<rparr>, w2))))))"

subsection \<open>The background threads of \<^verbatim>\<open>YUSRLinRZGUI\<close>\<close>

text \<open>
  \<^verbatim>\<open>compress_files\<close> and \<^verbatim>\<open>extract_archive\<close> each build a task and call
  \<^verbatim>\<open>threading.Thread(target=task, daemon=True).start()\<close>, which returns at once. The
  state is the list of threads started and not yet finished; a thread finishing is an
  event of its own.
\<close>

datatype task = CompressTask path path string | ExtractTask path "path option"

record gui =
  threads :: "task list"

definition compress_files :: "path \<Rightarrow> path \<Rightarrow> string \<Rightarrow> gui \<Rightarrow> gui" where
  "compress_files source output format_type g =
     g\<lparr>threads := threads g @ [CompressTask source output format_type]\<rparr>"

definition extract_archive :: "path \<Rightarrow> path option \<Rightarrow> gui \<Rightarrow> gui" where
  "extract_archive archive_path output_dir g =
     g\<lparr>threads := threads g @ [ExtractTask archive_path output_dir]\<rparr>"

text \<open>
  What can happen to the window: the user confirms the compress dialog, the user picks an
  archive to extract, or the \<open>i\<close>-th running thread returns from its task.
\<close>

datatype event = Compress path path string | ExtractEv path "path option" | ThreadDone nat

fun step :: "event \<Rightarrow> gui \<Rightarrow> gui" where
  "step (Compress source output format_type) g = compress_files source output format_type g"
| "step (ExtractEv archive_path output_dir) g = extract_archive archive_path output_dir g"
| "step (ThreadDone i) g = g\<lparr>threads := take i (threads g) @ drop (Suc i) (threads g)\<rparr>"

fun run :: "event list \<Rightarrow> gui \<Rightarrow> gui" where
  "run [] g = g"
| "run (e # es) g = run es (step e g)"

subsection \<open>Observations on a run\<close>

text \<open>
  The files a writer is to add from a tree, each with its archive name: the source alone
  under its own name, or the regular files of the walk under their paths relative to the
  source's parent.
\<close>

definition archived :: "node \<Rightarrow> path \<Rightarrow> (path \<times> path) list" where
  "archived t source =
     (if is_file t source then [(source, [name source])]
      else map (\<lambda>p. (p, relative_to p (parent source))) (filter (is_file t) (rglob t source)))"

text \<open>
  The additions that returned among a list of library calls, each a file path with the
  archive name it was given, and the archives opened among them.
\<close>

fun adds :: "(lib_call \<times> outcome) list \<Rightarrow> (path \<times> path) list" where
  "adds [] = []"
| "adds ((Add p a, Returned) # cs) = (p, a) # adds cs"
| "adds (c # cs) = adds cs"

fun is_open :: "lib_call \<Rightarrow> bool" where
  "is_open (OpenWrite k p) = True"
| "is_open (OpenRead k p) = True"
| "is_open c = False"

definition opens :: "(lib_call \<times> outcome) list \<Rightarrow> lib_call list" where
  "opens cs = filter is_open (map fst cs)"

text \<open>
  The calls that raised among a list of library calls, and what was called after the
  first of them.
\<close>

definition raisers :: "(lib_call \<times> outcome) list \<Rightarrow> lib_call list" where
  "raisers cs = map fst (filter (\<lambda>x. snd x = Raised) cs)"

definition after_raise :: "(lib_call \<times> outcome) list \<Rightarrow> (lib_call \<times> outcome) list" where
  "after_raise cs = tl (dropWhile (\<lambda>x. snd x = Returned) cs)"

text \<open>
  The table of the specification: the codec, with its mode, that each format name stands
  for.
\<close>

definition format_codec :: "string \<Rightarrow> codec option" where
  "format_codec f =
     (if f = ''zip'' then Some ZipFile
      else if f = ''tar.gz'' \<or> f = ''tgz'' then Some (TarFile ''w:gz'')
      else if f = ''tar.bz2'' then Some (TarFile ''w:bz2'')
      else if f = ''tar.xz'' then Some (TarFile ''w:xz'')
      else if f = ''7z'' then Some SevenZipFile
      else None)"

text \<open>
  A small environment and file tree on which the statements below are run: a file system
  that lists a new name first, toy archive formats (one byte on disk for each member of
  an open archive; the member names joined for a finished one, split at dots when read),
  a library that cannot add the file \<^verbatim>\<open>y1979.txt\<close> and cannot finish an xz stream,
  py7zr installed, rarfile not.
\<close>

definition demo_env :: env where
  "demo_env = \<lparr>HAS_7Z = True, HAS_RAR = False, progress_callback = True,
     slot = (\<lambda>c ns. 0),
     flushed = (\<lambda>k ms. map (\<lambda>m. CHR ''#'') ms),
     encode = (\<lambda>k ms. concat (map (\<lambda>m. join_slash (fst m)) ms)),
     aborted = (\<lambda>k ms. map (\<lambda>m. CHR ''#'') ms),
     add_ok = (\<lambda>k p t. name p \<noteq> ''y1979.txt''),
     close_ok = (\<lambda>k normal ms. k \<noteq> TarFile ''w:xz''),
     namelist = (\<lambda>k b. Some (split_dot b)),
     extract_member = (\<lambda>k b m out t. write_file (\<lambda>c ns. 0) t (out @ [m]) b)\<rparr>"

definition demo_tree :: node where
  "demo_tree = Dir [(''d'', Dir [(''a.txt'', File ''hello''), (''s'', Dir [(''b'', File ''xy'')]), (''e'', Dir [])]),
                    (''f.bin'', File ''abc''),
                    (''backup.2024.zip'', File ''a.b''),
                    (''notes.txt'', File ''abc''),
                    (''notes'', Dir []),
                    (''old.rar'', File ''m.n''),
                    (''photos.zip'', File ''notes.txt''),
                    (''old'', Dir [(''keep.txt'', File ''k''), (''y1979.txt'', File ''z'')])]"

definition demo_world :: world where
  "demo_world = \<lparr>fs = demo_tree, stats_files = 7, stats_size = 9, progress = [], calls = [],
     held = []\<rparr>"

text \<open>
  The file tree as a writer finds it: the archive it has just opened is there, with the
  bytes of an archive that holds nothing yet.
\<close>

definition opened :: "env \<Rightarrow> codec \<Rightarrow> node \<Rightarrow> path \<Rightarrow> node" where
  "opened E k t out =
     (case write_file (slot E) t out (flushed E k []) of None \<Rightarrow> t | Some t' \<Rightarrow> t')"

text \<open>A directory lists each name once.\<close>

fun wf_tree :: "node \<Rightarrow> bool" where
  "wf_tree (File b) = True"
| "wf_tree (Dir es) = (distinct (map fst es) \<and> (\<forall>e \<in> set es. wf_tree (snd e)))"

text \<open>
  The errors that come out of a library call (the archive libraries, and the operating
  system calls of \<^verbatim>\<open>pathlib\<close>), as opposed to those the engine raises itself.
\<close>

fun from_library :: "error \<Rightarrow> bool" where
  "from_library (OSError p) = True"
| "from_library (ArchiveError c) = True"
| "from_library e = False"

text \<open>
  The table of the specification for extraction: the codec that each extension stands for.
\<close>

definition ext_codec :: "string \<Rightarrow> codec option" where
  "ext_codec ext =
     (if ext = ''.zip'' then Some ZipFile
      else if ext = ''.rar'' then Some RarFile
      else if ext = ''.7z'' then Some SevenZipFile
      else if ext = ''.tar'' \<or> ext = ''.tar.gz'' \<or> ext = ''.tgz'' \<or> ext = ''.tar.bz2''
              \<or> ext = ''.tar.xz'' then Some (TarFile ''r:*'')
      else None)"

text \<open>
  Two worlds the engine cannot tell apart: the same file tree and the same statistics,
  whatever has been reported or called before.
\<close>

definition same_state :: "world \<Rightarrow> world \<Rightarrow> bool" where
  "same_state w w' =
     (fs w = fs w' \<and> stats_files w = stats_files w' \<and> stats_size w = stats_size w')"

text \<open>The events that start a background thread.\<close>

fun is_start :: "event \<Rightarrow> bool" where
  "is_start (Compress source output format_type) = True"
| "is_start (ExtractEv archive_path output_dir) = True"
| "is_start (ThreadDone i) = False"

section \<open>Properties\<close>

subsection \<open>The file tree\<close>

lemma map_of_set_entry: "map_of (set_entry c n es) = (map_of es)(c \<mapsto> n)"
  by (induction es) (auto simp add: fun_eq_iff)

lemma set_set_entry: "set (set_entry c n es) \<subseteq> insert (c, n) (set es)"
  by (induction es) auto

lemma fst_set_entry: "fst ` set (set_entry c n es) = insert c (fst ` set es)"
  by (induction es) auto

lemma distinct_set_entry: "distinct (map fst es) \<Longrightarrow> distinct (map fst (set_entry c n es))"
proof (induction es)
  case Nil
  then show ?case by simp
next
  case (Cons e es)
  then show ?case using fst_set_entry [of c n es] by (auto simp add: image_iff)
qed

lemma set_insert_at: "set (take i es @ x # drop i es) = insert x (set es)"
proof -
  have "set (take i es) \<union> set (drop i es) = set es"
    by (metis append_take_drop_id set_append)
  then show ?thesis by auto
qed

lemma map_of_insert_new:
  "c \<notin> fst ` set es \<Longrightarrow> map_of (take i es @ (c, n) # drop i es) = (map_of es)(c \<mapsto> n)"
proof (induction es arbitrary: i)
  case Nil
  then show ?case by simp
next
  case (Cons e es)
  then have c: "c \<noteq> fst e" and IH: "\<And>j. map_of (take j es @ (c, n) # drop j es) = (map_of es)(c \<mapsto> n)"
    by auto
  show ?case
  proof (cases i)
    case 0
    then show ?thesis by (auto simp add: fun_eq_iff)
  next
    case (Suc j)
    then have eq: "take i (e # es) @ (c, n) # drop i (e # es) = e # (take j es @ (c, n) # drop j es)"
      by simp
    have "map_of (e # (take j es @ (c, n) # drop j es)) =
            (map_of (take j es @ (c, n) # drop j es))(fst e \<mapsto> snd e)"
      by (simp only: map_of.simps)
    also have "\<dots> = ((map_of es)(c \<mapsto> n))(fst e \<mapsto> snd e)" by (simp only: IH)
    also have "\<dots> = ((map_of es)(fst e \<mapsto> snd e))(c \<mapsto> n)"
      using c by (rule fun_upd_twist)
    also have "\<dots> = (map_of (e # es))(c \<mapsto> n)" by (simp only: map_of.simps)
    finally show ?thesis unfolding eq .
  qed
qed

lemma distinct_insert_new:
  "c \<notin> fst ` set es \<Longrightarrow> distinct (map fst es) \<Longrightarrow>
   distinct (map fst (take i es @ (c, n) # drop i es))"
proof (induction es arbitrary: i)
  case Nil
  then show ?case by simp
next
  case (Cons e es)
  then have c: "c \<noteq> fst e" and e: "fst e \<notin> fst ` set es"
    and IH: "\<And>j. distinct (map fst (take j es @ (c, n) # drop j es))"
    by auto
  show ?case
  proof (cases i)
    case 0
    then show ?thesis using Cons.prems by simp
  next
    case (Suc j)
    have eq: "take i (e # es) @ (c, n) # drop i (e # es) = e # (take j es @ (c, n) # drop j es)"
      using Suc by simp
    have "fst e \<notin> fst ` set (take j es @ (c, n) # drop j es)"
      unfolding set_insert_at using c e by auto
    then show ?thesis unfolding eq using IH [of j]
      by (simp del: set_append map_append distinct_append)
  qed
qed

lemma place_present: "c \<in> set (map fst es) \<Longrightarrow> place sl c n es = set_entry c n es"
  by (simp add: place_def)

lemma place_new:
  "c \<notin> set (map fst es) \<Longrightarrow>
   place sl c n es = take (sl c (map fst es)) es @ (c, n) # drop (sl c (map fst es)) es"
  by (simp add: place_def Let_def)

lemma map_of_place: "map_of (place sl c n es) = (map_of es)(c \<mapsto> n)"
proof (cases "c \<in> set (map fst es)")
  case True
  then show ?thesis by (simp only: place_present map_of_set_entry)
next
  case False
  then have "c \<notin> fst ` set es" by simp
  from map_of_insert_new [OF this] show ?thesis unfolding place_new [OF False] .
qed

lemma set_place: "set (place sl c n es) \<subseteq> insert (c, n) (set es)"
proof (cases "c \<in> set (map fst es)")
  case True
  then show ?thesis by (simp only: place_present set_set_entry)
next
  case False
  show ?thesis unfolding place_new [OF False] set_insert_at by simp
qed

lemma distinct_place:
  assumes "distinct (map fst es)"
  shows "distinct (map fst (place sl c n es))"
proof (cases "c \<in> set (map fst es)")
  case True
  then show ?thesis using assms by (simp only: place_present distinct_set_entry)
next
  case False
  then have "c \<notin> fst ` set es" by simp
  from distinct_insert_new [OF this assms] show ?thesis unfolding place_new [OF False] .
qed

lemma wf_set_entry:
  "wf_tree (Dir es) \<Longrightarrow> wf_tree n \<Longrightarrow> wf_tree (Dir (set_entry c n es))"
  using set_set_entry [of c n es] by (auto simp add: distinct_set_entry)

lemma wf_place:
  "wf_tree (Dir es) \<Longrightarrow> wf_tree n \<Longrightarrow> wf_tree (Dir (place sl c n es))"
  using set_place [of sl c n es] by (auto simp add: distinct_place)

lemma wf_map_of: "wf_tree (Dir es) \<Longrightarrow> map_of es c = Some n \<Longrightarrow> wf_tree n"
  by (auto dest: map_of_SomeD)

lemma wf_write_file: "write_file sl t0 out b = Some t \<Longrightarrow> wf_tree t0 \<Longrightarrow> wf_tree t"
proof (induction sl t0 out b arbitrary: t rule: write_file.induct)
  case (1 sl n b)
  then show ?case by simp
next
  case (2 sl x c cs b)
  then show ?case by simp
next
  case (3 sl es c b)
  from "3.prems" have "t = Dir (place sl c (File b) es)"
    by (auto split: option.splits node.splits)
  with "3.prems" show ?case using wf_place [of es "File b" sl c] by simp
next
  case (4 sl es c v va b)
  from "4.prems" obtain n n' where n: "map_of es c = Some n"
    and w: "write_file sl n (v # va) b = Some n'" and t: "t = Dir (set_entry c n' es)"
    by (auto split: option.splits)
  from "4.prems" n have "wf_tree n" using wf_map_of by blast
  with "4.IH" [OF n w] have "wf_tree n'" .
  with "4.prems" t show ?case using wf_set_entry [of es n' c] by simp
qed

lemma lookup_File_below: "q \<noteq> [] \<Longrightarrow> lookup (File b) q = None"
  by (cases q) simp_all

text \<open>What a lookup finds after bytes have reached the file at \<open>out\<close>.\<close>

lemma lookup_set_bytes:
  "(lookup t p = None \<longrightarrow> lookup (set_bytes t out b) p = None)
 \<and> (\<forall>x. lookup t p = Some (File x) \<longrightarrow>
        lookup (set_bytes t out b) p = Some (File (if p = out then b else x)))
 \<and> (\<forall>ds. lookup t p = Some (Dir ds) \<longrightarrow> (\<exists>ds'. lookup (set_bytes t out b) p = Some (Dir ds')))"
proof (induction t out b arbitrary: p rule: set_bytes.induct)
  case (1 x b)
  then show ?case by (cases p) simp_all
next
  case (2 es b)
  then show ?case by (cases p) simp_all
next
  case (3 x c cs b)
  then show ?case by (cases p) simp_all
next
  case (4 es c cs b)
  show ?case
  proof (cases "map_of es c")
    case None
    then show ?thesis by (cases p) auto
  next
    case (Some n)
    show ?thesis
    proof (cases p)
      case Nil
      then show ?thesis using Some by simp
    next
      case (Cons c' ps)
      show ?thesis
      proof (cases "c' = c")
        case True
        from "4.IH" [OF Some, of ps] show ?thesis
          using Some True Cons by (simp add: map_of_set_entry)
      next
        case False
        then show ?thesis using Some Cons by (simp add: map_of_set_entry)
      qed
    qed
  qed
qed

lemma is_file_set_bytes [simp]: "is_file (set_bytes t out b) p = is_file t p"
proof (cases "lookup t p")
  case None
  with lookup_set_bytes [of t p out b] show ?thesis by (simp add: is_file_def)
next
  case (Some n)
  with lookup_set_bytes [of t p out b] show ?thesis by (cases n) (auto simp add: is_file_def)
qed

lemma st_size_set_bytes_other:
  "p \<noteq> out \<Longrightarrow> st_size (set_bytes t out b) p = st_size t p"
proof (cases "lookup t p")
  case None
  assume "p \<noteq> out"
  with None lookup_set_bytes [of t p out b] show ?thesis by (simp add: st_size_def)
next
  case (Some n)
  assume "p \<noteq> out"
  with Some lookup_set_bytes [of t p out b] show ?thesis by (cases n) (auto simp add: st_size_def)
qed

lemma st_size_set_bytes_self:
  "is_file t out \<Longrightarrow> st_size (set_bytes t out b) out = length b"
  using lookup_set_bytes [of t out out b]
  by (auto simp add: st_size_def is_file_def split: option.splits node.splits)

lemma exists_set_bytes [simp]: "exists (set_bytes t out b) p = exists t p"
proof (cases "lookup t p")
  case None
  with lookup_set_bytes [of t p out b] show ?thesis by (simp add: exists_def)
next
  case (Some n)
  with lookup_set_bytes [of t p out b] show ?thesis by (cases n) (auto simp add: exists_def)
qed

text \<open>What a lookup finds after the file at \<open>out\<close> has been opened for writing.\<close>

lemma lookup_write_file:
  "write_file sl t0 out b = Some t \<Longrightarrow>
   (lookup t0 p = None \<longrightarrow> p \<noteq> out \<longrightarrow> lookup t p = None)
 \<and> (\<forall>x. lookup t0 p = Some (File x) \<longrightarrow> lookup t p = Some (File (if p = out then b else x)))
 \<and> (\<forall>ds. lookup t0 p = Some (Dir ds) \<longrightarrow> (\<exists>ds'. lookup t p = Some (Dir ds')))
 \<and> lookup t out = Some (File b)"
proof (induction sl t0 out b arbitrary: t p rule: write_file.induct)
  case (1 sl n b)
  then show ?case by simp
next
  case (2 sl x c cs b)
  then show ?case by simp
next
  case (3 sl es c b)
  from "3.prems" have t: "t = Dir (place sl c (File b) es)"
    and nd: "\<And>xs. map_of es c \<noteq> Some (Dir xs)"
    by (auto split: option.splits node.splits)
  show ?case
  proof (cases p)
    case Nil
    then show ?thesis by (simp add: t map_of_place)
  next
    case (Cons c' ps)
    show ?thesis
    proof (cases "c' = c")
      case False
      then show ?thesis using Cons by (simp add: t map_of_place)
    next
      case True
      show ?thesis
      proof (cases "map_of es c")
        case None
        then show ?thesis using True Cons by (cases ps) (simp_all add: t map_of_place)
      next
        case (Some n)
        with nd obtain x where "n = File x" by (cases n) auto
        with Some show ?thesis using True Cons by (cases ps) (simp_all add: t map_of_place)
      qed
    qed
  qed
next
  case (4 sl es c v va b)
  from "4.prems" obtain n n' where n: "map_of es c = Some n"
    and w: "write_file sl n (v # va) b = Some n'" and t: "t = Dir (set_entry c n' es)"
    by (auto split: option.splits)
  note IH = "4.IH" [OF n w]
  show ?case
  proof (cases p)
    case Nil
    then show ?thesis using IH [of "[]"] by (simp add: t map_of_set_entry)
  next
    case (Cons c' ps)
    show ?thesis
    proof (cases "c' = c")
      case True
      then show ?thesis using IH [of ps] n Cons by (simp add: t map_of_set_entry)
    next
      case False
      then show ?thesis using IH [of "[]"] Cons by (simp add: t map_of_set_entry)
    qed
  qed
qed

lemma is_dir_write_file:
  assumes "write_file sl t0 out b = Some t" and "is_dir t0 p"
  shows "is_dir t p"
proof -
  from assms(2) obtain ds where "lookup t0 p = Some (Dir ds)"
    by (auto simp add: is_dir_def split: option.splits node.splits)
  with lookup_write_file [OF assms(1), of p] show ?thesis by (auto simp add: is_dir_def)
qed

lemma is_file_write_file:
  assumes "write_file sl t0 out b = Some t" and "is_file t0 p"
  shows "is_file t p"
proof -
  from assms(2) obtain x where "lookup t0 p = Some (File x)"
    by (auto simp add: is_file_def split: option.splits node.splits)
  with lookup_write_file [OF assms(1), of p] show ?thesis by (auto simp add: is_file_def)
qed

lemma is_file_write_file_out: "write_file sl t0 out b = Some t \<Longrightarrow> is_file t out"
  using lookup_write_file [of sl t0 out b t out] by (simp add: is_file_def)

lemma file_kept_by_write_file:
  assumes "write_file sl t0 out b = Some t" and "p \<noteq> out" and "is_file t p"
  shows "lookup t p = lookup t0 p"
proof (cases "lookup t0 p")
  case None
  with lookup_write_file [OF assms(1), of p] assms(2,3) show ?thesis
    by (simp add: is_file_def)
next
  case (Some n)
  show ?thesis
  proof (cases n)
    case (File x)
    with Some lookup_write_file [OF assms(1), of p] assms(2) show ?thesis by simp
  next
    case (Dir ds)
    with Some lookup_write_file [OF assms(1), of p] assms(3) show ?thesis
      by (auto simp add: is_file_def)
  qed
qed

lemma is_dir_not_file: "is_dir t p \<Longrightarrow> \<not> is_file t p"
  by (auto simp add: is_dir_def is_file_def split: option.splits node.splits)

lemma is_file_exists: "is_file t p \<Longrightarrow> exists t p"
  by (auto simp add: exists_def is_file_def split: option.splits)

lemma exists_file_or_dir: "exists t p \<Longrightarrow> is_file t p \<or> is_dir t p"
  by (auto simp add: exists_def is_file_def is_dir_def split: option.splits node.splits)

lemma is_file_after_open:
  assumes "write_file sl t0 out b = Some t" and "exists t0 p"
  shows "is_file t p = is_file t0 p"
proof (cases "is_file t0 p")
  case True
  with is_file_write_file [OF assms(1)] show ?thesis by simp
next
  case False
  with exists_file_or_dir [OF assms(2)] have "is_dir t0 p" by simp
  from is_dir_write_file [OF assms(1) this] have "\<not> is_file t p" by (rule is_dir_not_file)
  with False show ?thesis by simp
qed

lemma is_dir_opened: "is_dir t0 p \<Longrightarrow> is_dir (opened E k t0 out) p"
  by (cases "write_file (slot E) t0 out (flushed E k [])")
     (auto simp add: opened_def intro: is_dir_write_file)

lemma wf_opened: "wf_tree t0 \<Longrightarrow> wf_tree (opened E k t0 out)"
  by (cases "write_file (slot E) t0 out (flushed E k [])")
     (auto simp add: opened_def intro: wf_write_file)

lemma lookup_append:
  "lookup t (p @ q) = (case lookup t p of None \<Rightarrow> None | Some n \<Rightarrow> lookup n q)"
  by (induction t p rule: lookup.induct) (auto split: option.splits)

lemma wf_lookup: "wf_tree t \<Longrightarrow> lookup t p = Some n \<Longrightarrow> wf_tree n"
proof (induction t p arbitrary: n rule: lookup.induct)
  case (1 n)
  then show ?case by simp
next
  case (2 b c cs)
  then show ?case by simp
next
  case (3 es c cs)
  from "3.prems" obtain m where m: "map_of es c = Some m" and l: "lookup m cs = Some n"
    by (auto split: option.splits)
  from "3.prems"(1) m have "wf_tree m" using wf_map_of by blast
  from "3.IH" [OF m this l] show ?case .
qed

lemma walk_Dir_set:
  "set (walk (Dir es) p) =
     (\<lambda>e. p @ [fst e]) ` set es \<union> (\<Union>e\<in>set es. set (walk (snd e) (p @ [fst e])))"
  by simp

lemma walk_below: "x \<in> set (walk n p) \<Longrightarrow> \<exists>q. x = p @ q \<and> q \<noteq> [] \<and> lookup n q \<noteq> None \<or> \<not> wf_tree n"
proof (induction n p arbitrary: x rule: walk.induct)
  case (1 b p)
  then show ?case by simp
next
  case (2 es p)
  show ?case
  proof (cases "wf_tree (Dir es)")
    case False
    then show ?thesis by blast
  next
    case True
    then have d: "distinct (map fst es)" by simp
    from "2.prems" have "x \<in> (\<lambda>e. p @ [fst e]) ` set es \<or> (\<exists>e\<in>set es. x \<in> set (walk (snd e) (p @ [fst e])))"
      unfolding walk_Dir_set by blast
    then show ?thesis
    proof
      assume "x \<in> (\<lambda>e. p @ [fst e]) ` set es"
      then obtain e where e: "e \<in> set es" "x = p @ [fst e]" by blast
      then have "(fst e, snd e) \<in> set es" by simp
      with d have "map_of es (fst e) = Some (snd e)" by (simp only: map_of_eq_Some_iff)
      then have "lookup (Dir es) [fst e] \<noteq> None" by simp
      with e(2) show ?thesis by blast
    next
      assume "\<exists>e\<in>set es. x \<in> set (walk (snd e) (p @ [fst e]))"
      then obtain e where e: "e \<in> set es" "x \<in> set (walk (snd e) (p @ [fst e]))" by blast
      from e(1) True have w: "wf_tree (snd e)" by simp
      from "2.IH" [OF e] w obtain q where q: "x = (p @ [fst e]) @ q" "q \<noteq> []" "lookup (snd e) q \<noteq> None"
        by blast
      from e(1) have "(fst e, snd e) \<in> set es" by simp
      with d have "map_of es (fst e) = Some (snd e)" by (simp only: map_of_eq_Some_iff)
      with q(3) have "lookup (Dir es) (fst e # q) \<noteq> None" by simp
      moreover have "x = p @ (fst e # q)" using q(1) by simp
      ultimately show ?thesis by blast
    qed
  qed
qed

lemma walk_reaches: "q \<noteq> [] \<Longrightarrow> lookup n q \<noteq> None \<Longrightarrow> p @ q \<in> set (walk n p)"
proof (induction n p arbitrary: q rule: walk.induct)
  case (1 b p)
  then show ?case by (simp add: lookup_File_below)
next
  case (2 es p)
  from "2.prems"(1) obtain c cs where cs: "q = c # cs" by (cases q) simp_all
  from "2.prems"(2) cs obtain n where n: "map_of es c = Some n" "lookup n cs \<noteq> None"
    by (cases "map_of es c") simp_all
  from n(1) have e: "(c, n) \<in> set es" by (rule map_of_SomeD)
  show ?case
  proof (cases "cs = []")
    case True
    have "p @ q = p @ [fst (c, n)]" using cs True by simp
    with e have "p @ q \<in> (\<lambda>e. p @ [fst e]) ` set es" by (rule image_eqI [rotated])
    then show ?thesis unfolding walk_Dir_set by blast
  next
    case False
    have "lookup (snd (c, n)) cs \<noteq> None" using n(2) by simp
    from "2.IH" [OF e False this] have "p @ q \<in> set (walk (snd (c, n)) (p @ [fst (c, n)]))"
      using cs by simp
    with e show ?thesis unfolding walk_Dir_set by blast
  qed
qed

lemma walk_set:
  assumes "wf_tree n"
  shows "set (walk n p) = {p @ q | q. q \<noteq> [] \<and> lookup n q \<noteq> None}"
proof (rule set_eqI, rule iffI)
  fix x assume "x \<in> set (walk n p)"
  from walk_below [OF this] assms show "x \<in> {p @ q | q. q \<noteq> [] \<and> lookup n q \<noteq> None}"
    by blast
next
  fix x assume "x \<in> {p @ q | q. q \<noteq> [] \<and> lookup n q \<noteq> None}"
  then obtain q where "x = p @ q" "q \<noteq> []" "lookup n q \<noteq> None" by blast
  then show "x \<in> set (walk n p)" using walk_reaches by simp
qed

lemma rglob_set:
  assumes "wf_tree t"
  shows "set (rglob t p) = {p @ q | q. q \<noteq> [] \<and> exists t (p @ q)}"
proof (cases "lookup t p")
  case None
  then show ?thesis by (simp add: rglob_def exists_def lookup_append)
next
  case (Some n)
  from wf_lookup [OF assms Some] have "wf_tree n" .
  from walk_set [OF this] Some show ?thesis
    by (simp add: rglob_def exists_def lookup_append)
qed

lemma files_below:
  assumes "wf_tree t"
  shows "set (filter (is_file t) (rglob t p)) = {p @ q | q. q \<noteq> [] \<and> is_file t (p @ q)}"
proof -
  have "set (filter (is_file t) (rglob t p)) = {x \<in> {p @ q | q. q \<noteq> [] \<and> exists t (p @ q)}. is_file t x}"
    by (simp add: rglob_set [OF assms])
  also have "\<dots> = {p @ q | q. q \<noteq> [] \<and> is_file t (p @ q)}"
    using is_file_exists by blast
  finally show ?thesis .
qed

subsection \<open>The writers\<close>

lemma lib_add_Some:
  assumes "lib_add E k out fp arc w = Some w0"
  shows "calls w0 = calls w" and "progress w0 = progress w"
    and "stats_files w0 = stats_files w" and "stats_size w0 = stats_size w"
    and "is_file (fs w0) p = is_file (fs w) p" and "exists (fs w0) p = exists (fs w) p"
    and "p \<noteq> out \<Longrightarrow> st_size (fs w0) p = st_size (fs w) p"
    and "held w0 = held w @ (if skips_itself k \<and> fp = out then []
                             else [(arc, read_bytes (fs w) fp)])"
  using assms
  by (auto simp add: lib_add_def Let_def st_size_set_bytes_other split: if_splits)

lemma adds_append [simp]: "adds (xs @ ys) = adds xs @ adds ys"
  by (induction xs rule: adds.induct) simp_all

lemma opens_append [simp]: "opens (xs @ ys) = opens xs @ opens ys"
  by (simp add: opens_def)

lemma count_added_fields [simp]:
  "fs (count_added E fp arc w) = fs w"
  "held (count_added E fp arc w) = held w"
  "calls (count_added E fp arc w) = calls w"
  "stats_files (count_added E fp arc w) = stats_files w + 1"
  "stats_size (count_added E fp arc w) = stats_size w + st_size (fs w) fp"
  "progress (count_added E fp arc w) =
     progress w @ (if progress_callback E then [''Adding: '' @ str_path arc] else [])"
  by (simp_all add: count_added_def Let_def update_progress_def)

lemma call_fields [simp]:
  "fs (call c w) = fs w" "held (call c w) = held w" "calls (call c w) = calls w @ [(c, Returned)]"
  "stats_files (call c w) = stats_files w" "stats_size (call c w) = stats_size w"
  "progress (call c w) = progress w"
  by (simp_all add: call_def)

lemma raised_fields [simp]:
  "fs (raised c w) = fs w" "held (raised c w) = held w" "calls (raised c w) = calls w @ [(c, Raised)]"
  "stats_files (raised c w) = stats_files w" "stats_size (raised c w) = stats_size w"
  "progress (raised c w) = progress w"
  by (simp_all add: raised_def)

lemma add_files_skip:
  "\<not> is_file (fs w) fp \<Longrightarrow> add_files E k s out (fp # ps) w = add_files E k s out ps w"
  by simp

lemma add_files_raise:
  "is_file (fs w) fp \<Longrightarrow> lib_add E k out fp (relative_to fp (parent s)) w = None \<Longrightarrow>
   add_files E k s out (fp # ps) w =
     (Some (ArchiveError (Add fp (relative_to fp (parent s)))),
      raised (Add fp (relative_to fp (parent s))) w)"
  by simp

lemma add_files_step:
  "is_file (fs w) fp \<Longrightarrow> lib_add E k out fp (relative_to fp (parent s)) w = Some w0 \<Longrightarrow>
   add_files E k s out (fp # ps) w =
     add_files E k s out ps
       (count_added E fp (relative_to fp (parent s)) (call (Add fp (relative_to fp (parent s))) w0))"
  by simp

text \<open>The tree keeps its shape through the loop.\<close>

lemma add_files_shape:
  "is_file (fs (snd (add_files E k s out ps w))) p = is_file (fs w) p
 \<and> exists (fs (snd (add_files E k s out ps w))) p = exists (fs w) p"
proof (induction ps arbitrary: w)
  case Nil
  then show ?case by simp
next
  case (Cons fp ps)
  show ?case
  proof (cases "is_file (fs w) fp")
    case False
    show ?thesis unfolding add_files_skip [OF False] by (rule Cons.IH)
  next
    case True
    show ?thesis
    proof (cases "lib_add E k out fp (relative_to fp (parent s)) w")
      case None
      show ?thesis unfolding add_files_raise [OF True None] by simp
    next
      case (Some w0)
      show ?thesis
        unfolding add_files_step [OF True Some]
        using Cons.IH [of "count_added E fp (relative_to fp (parent s)) (call (Add fp (relative_to fp (parent s))) w0)"]
          lib_add_Some(5,6) [OF Some, of p]
        by simp
    qed
  qed
qed

text \<open>Whatever the outcome: one message for each addition that returned, in order.\<close>

lemma add_files_messages:
  "\<exists>xs. adds (calls (snd (add_files E k s out ps w))) = adds (calls w) @ xs
      \<and> progress (snd (add_files E k s out ps w)) =
          progress w @ (if progress_callback E
                        then map (\<lambda>e. ''Adding: '' @ str_path (snd e)) xs else [])
      \<and> opens (calls (snd (add_files E k s out ps w))) = opens (calls w)"
proof (induction ps arbitrary: w)
  case Nil
  then show ?case by simp
next
  case (Cons fp ps)
  show ?case
  proof (cases "is_file (fs w) fp")
    case False
    show ?thesis unfolding add_files_skip [OF False] by (rule Cons.IH)
  next
    case True
    show ?thesis
    proof (cases "lib_add E k out fp (relative_to fp (parent s)) w")
      case None
      show ?thesis unfolding add_files_raise [OF True None] by (simp add: opens_def)
    next
      case (Some w0)
      let ?w = "count_added E fp (relative_to fp (parent s)) (call (Add fp (relative_to fp (parent s))) w0)"
      from Cons.IH [of ?w] obtain xs where
        a: "adds (calls (snd (add_files E k s out ps ?w))) = adds (calls ?w) @ xs" and
        b: "progress (snd (add_files E k s out ps ?w)) =
              progress ?w @ (if progress_callback E
                             then map (\<lambda>e. ''Adding: '' @ str_path (snd e)) xs else [])" and
        c: "opens (calls (snd (add_files E k s out ps ?w))) = opens (calls ?w)"
        by blast
      have "adds (calls (snd (add_files E k s out ps ?w))) =
              adds (calls w) @ (fp, relative_to fp (parent s)) # xs"
        using a lib_add_Some(1) [OF Some] by simp
      moreover have "progress (snd (add_files E k s out ps ?w)) =
              progress w @ (if progress_callback E
                then map (\<lambda>e. ''Adding: '' @ str_path (snd e)) ((fp, relative_to fp (parent s)) # xs)
                else [])"
        using b lib_add_Some(2) [OF Some] by simp
      moreover have "opens (calls (snd (add_files E k s out ps ?w))) = opens (calls w)"
        using c lib_add_Some(1) [OF Some] by (simp add: opens_def)
      ultimately show ?thesis unfolding add_files_step [OF True Some] by blast
    qed
  qed
qed

text \<open>A loop that ends without an error.\<close>

lemma add_files_ok:
  assumes "fst (add_files E k s out ps w) = None"
  shows "adds (calls (snd (add_files E k s out ps w))) =
           adds (calls w) @ map (\<lambda>p. (p, relative_to p (parent s))) (filter (is_file (fs w)) ps)
       \<and> stats_files (snd (add_files E k s out ps w)) =
           stats_files w + length (filter (is_file (fs w)) ps)
       \<and> map fst (held (snd (add_files E k s out ps w))) =
           map fst (held w) @
           map (\<lambda>p. relative_to p (parent s))
             (filter (\<lambda>p. \<not> (skips_itself k \<and> p = out)) (filter (is_file (fs w)) ps))"
  using assms
proof (induction ps arbitrary: w)
  case Nil
  then show ?case by simp
next
  case (Cons fp ps)
  show ?case
  proof (cases "is_file (fs w) fp")
    case False
    from Cons.prems have "fst (add_files E k s out ps w) = None"
      unfolding add_files_skip [OF False] .
    from Cons.IH [OF this] False show ?thesis unfolding add_files_skip [OF False] by simp
  next
    case True
    show ?thesis
    proof (cases "lib_add E k out fp (relative_to fp (parent s)) w")
      case None
      with Cons.prems True show ?thesis by simp
    next
      case (Some w0)
      let ?w = "count_added E fp (relative_to fp (parent s)) (call (Add fp (relative_to fp (parent s))) w0)"
      have f: "is_file (fs w0) = is_file (fs w)"
        by (rule ext) (rule lib_add_Some(5) [OF Some])
      from Cons.prems have "fst (add_files E k s out ps ?w) = None"
        unfolding add_files_step [OF True Some] .
      from Cons.IH [OF this] show ?thesis
        unfolding add_files_step [OF True Some]
        using True lib_add_Some(1,3,8) [OF Some] by (simp add: f)
    qed
  qed
qed

lemma add_files_ok_size:
  assumes "fst (add_files E k s out ps w) = None"
    and "out \<notin> set (filter (is_file (fs w)) ps)"
  shows "stats_size (snd (add_files E k s out ps w)) =
           stats_size w + sum_list (map (st_size (fs w)) (filter (is_file (fs w)) ps))"
  using assms
proof (induction ps arbitrary: w)
  case Nil
  then show ?case by simp
next
  case (Cons fp ps)
  show ?case
  proof (cases "is_file (fs w) fp")
    case False
    from Cons.prems(1) have a: "fst (add_files E k s out ps w) = None"
      unfolding add_files_skip [OF False] .
    from Cons.prems(2) False have b: "out \<notin> set (filter (is_file (fs w)) ps)" by simp
    from Cons.IH [OF a b] False show ?thesis unfolding add_files_skip [OF False] by simp
  next
    case True
    show ?thesis
    proof (cases "lib_add E k out fp (relative_to fp (parent s)) w")
      case None
      with Cons.prems True show ?thesis by simp
    next
      case (Some w0)
      let ?w = "count_added E fp (relative_to fp (parent s)) (call (Add fp (relative_to fp (parent s))) w0)"
      have f: "is_file (fs w0) = is_file (fs w)"
        by (rule ext) (rule lib_add_Some(5) [OF Some])
      from Cons.prems(2) True have n: "fp \<noteq> out" and b: "out \<notin> set (filter (is_file (fs w)) ps)"
        by auto
      have z: "map (st_size (fs w0)) (filter (is_file (fs w)) ps) =
               map (st_size (fs w)) (filter (is_file (fs w)) ps)"
      proof (rule map_cong [OF refl])
        fix p assume "p \<in> set (filter (is_file (fs w)) ps)"
        with b have "p \<noteq> out" by auto
        then show "st_size (fs w0) p = st_size (fs w) p" by (rule lib_add_Some(7) [OF Some])
      qed
      from Cons.prems(1) have a: "fst (add_files E k s out ps ?w) = None"
        unfolding add_files_step [OF True Some] .
      have b': "out \<notin> set (filter (is_file (fs ?w)) ps)" using b by (simp add: f)
      from Cons.IH [OF a b'] show ?thesis
        unfolding add_files_step [OF True Some]
        using True lib_add_Some(4) [OF Some] lib_add_Some(7) [OF Some n]
        by (simp add: f z)
    qed
  qed
qed

text \<open>A loop that ends with an error: the addition that raised is its last call.\<close>

lemma add_files_error:
  assumes "fst (add_files E k s out ps w) = Some e"
  shows "\<exists>p a pre. e = ArchiveError (Add p a)
         \<and> calls (snd (add_files E k s out ps w)) = calls w @ pre @ [(Add p a, Raised)]
         \<and> list_all (\<lambda>x. snd x = Returned) pre"
  using assms
proof (induction ps arbitrary: w)
  case Nil
  then show ?case by simp
next
  case (Cons fp ps)
  show ?case
  proof (cases "is_file (fs w) fp")
    case False
    from Cons.prems have "fst (add_files E k s out ps w) = Some e"
      unfolding add_files_skip [OF False] .
    from Cons.IH [OF this] show ?thesis unfolding add_files_skip [OF False] .
  next
    case True
    show ?thesis
    proof (cases "lib_add E k out fp (relative_to fp (parent s)) w")
      case None
      from Cons.prems have "e = ArchiveError (Add fp (relative_to fp (parent s)))"
        unfolding add_files_raise [OF True None] by simp
      moreover have "calls (raised (Add fp (relative_to fp (parent s))) w) =
                       calls w @ [] @ [(Add fp (relative_to fp (parent s)), Raised)]"
        by simp
      moreover have "list_all (\<lambda>x. snd x = Returned) ([] :: (lib_call \<times> outcome) list)" by simp
      ultimately show ?thesis unfolding add_files_raise [OF True None] snd_conv by blast
    next
      case (Some w0)
      let ?w = "count_added E fp (relative_to fp (parent s)) (call (Add fp (relative_to fp (parent s))) w0)"
      from Cons.prems have "fst (add_files E k s out ps ?w) = Some e"
        unfolding add_files_step [OF True Some] .
      from Cons.IH [OF this] obtain p a pre where
        e: "e = ArchiveError (Add p a)" and
        c: "calls (snd (add_files E k s out ps ?w)) = calls ?w @ pre @ [(Add p a, Raised)]" and
        r: "list_all (\<lambda>x. snd x = Returned) pre"
        by blast
      have "calls (snd (add_files E k s out ps ?w)) =
              calls w @ ((Add fp (relative_to fp (parent s)), Returned) # pre) @ [(Add p a, Raised)]"
        using c lib_add_Some(1) [OF Some] by simp
      moreover have "list_all (\<lambda>x. snd x = Returned) ((Add fp (relative_to fp (parent s)), Returned) # pre)"
        using r by simp
      ultimately show ?thesis unfolding add_files_step [OF True Some] using e by blast
    qed
  qed
qed

text \<open>A loop that ends without an error has made no call that raised.\<close>

lemma add_files_returned:
  "fst (add_files E k s out ps w) = None \<Longrightarrow>
   \<exists>pre. calls (snd (add_files E k s out ps w)) = calls w @ pre
         \<and> list_all (\<lambda>x. snd x = Returned) pre"
proof (induction ps arbitrary: w)
  case Nil
  have "calls w = calls w @ []" by simp
  moreover have "list_all (\<lambda>x. snd x = Returned) ([] :: (lib_call \<times> outcome) list)" by simp
  ultimately show ?case unfolding add_files.simps snd_conv by blast
next
  case (Cons fp ps)
  show ?case
  proof (cases "is_file (fs w) fp")
    case False
    from Cons.prems have "fst (add_files E k s out ps w) = None"
      unfolding add_files_skip [OF False] .
    from Cons.IH [OF this] show ?thesis unfolding add_files_skip [OF False] .
  next
    case True
    show ?thesis
    proof (cases "lib_add E k out fp (relative_to fp (parent s)) w")
      case None
      with Cons.prems True show ?thesis by simp
    next
      case (Some w0)
      let ?a = "relative_to fp (parent s)"
      let ?w = "count_added E fp ?a (call (Add fp ?a) w0)"
      from Cons.prems have "fst (add_files E k s out ps ?w) = None"
        unfolding add_files_step [OF True Some] .
      from Cons.IH [OF this] obtain pre where
        c: "calls (snd (add_files E k s out ps ?w)) = calls ?w @ pre" and
        r: "list_all (\<lambda>x. snd x = Returned) pre"
        by blast
      have "calls (snd (add_files E k s out (fp # ps) w)) = calls w @ ((Add fp ?a, Returned) # pre)"
        unfolding add_files_step [OF True Some] c using lib_add_Some(1) [OF Some] by simp
      moreover have "list_all (\<lambda>x. snd x = Returned) ((Add fp ?a, Returned) # pre)"
        using r by simp
      ultimately show ?thesis by blast
    qed
  qed
qed

lemma str_path_single: "str_path [n] = n"
  by (simp add: str_path_def)

lemma archived_file: "is_file t source \<Longrightarrow> archived t source = [(source, [name source])]"
  by (simp add: archived_def)

lemma archived_walk:
  "\<not> is_file t source \<Longrightarrow>
   archived t source = map (\<lambda>p. (p, relative_to p (parent source))) (filter (is_file t) (rglob t source))"
  by (simp add: archived_def)

lemma add_source_walk:
  "\<not> is_file (fs w) source \<Longrightarrow>
   add_source E k source out w = add_files E k source out (rglob (fs w) source) w"
  by (simp add: add_source_def)

lemma add_source_raise:
  "is_file (fs w) source \<Longrightarrow> lib_add E k out source [name source] w = None \<Longrightarrow>
   add_source E k source out w =
     (Some (ArchiveError (Add source [name source])), raised (Add source [name source]) w)"
  by (simp add: add_source_def)

lemma add_source_one:
  assumes "is_file (fs w) source" and "lib_add E k out source [name source] w = Some w0"
  shows "fst (add_source E k source out w) = None"
    and "calls (snd (add_source E k source out w)) = calls w @ [(Add source [name source], Returned)]"
    and "progress (snd (add_source E k source out w)) =
           progress w @ (if progress_callback E then [''Added: '' @ name source] else [])"
    and "stats_files (snd (add_source E k source out w)) = 1"
    and "stats_size (snd (add_source E k source out w)) = st_size (fs w0) source"
    and "fs (snd (add_source E k source out w)) = fs w0"
    and "held (snd (add_source E k source out w)) = held w0"
  using assms lib_add_Some(1,2) [OF assms(2)]
  by (simp_all add: add_source_def Let_def update_progress_def)

lemma add_source_shape:
  "is_file (fs (snd (add_source E k source out w))) p = is_file (fs w) p
 \<and> exists (fs (snd (add_source E k source out w))) p = exists (fs w) p"
proof (cases "is_file (fs w) source")
  case False
  show ?thesis unfolding add_source_walk [OF False] by (rule add_files_shape)
next
  case True
  show ?thesis
  proof (cases "lib_add E k out source [name source] w")
    case None
    show ?thesis unfolding add_source_raise [OF True None] by simp
  next
    case (Some w0)
    show ?thesis unfolding add_source_one(6) [OF True Some]
      using lib_add_Some(5,6) [OF Some] by simp
  qed
qed

lemma add_source_messages:
  "\<exists>xs. adds (calls (snd (add_source E k source out w))) = adds (calls w) @ xs
      \<and> progress (snd (add_source E k source out w)) =
          progress w @ (if progress_callback E
                        then map (\<lambda>e. (if is_file (fs w) source then ''Added: '' else ''Adding: '')
                                        @ str_path (snd e)) xs
                        else [])
      \<and> opens (calls (snd (add_source E k source out w))) = opens (calls w)"
proof (cases "is_file (fs w) source")
  case False
  show ?thesis unfolding add_source_walk [OF False]
    using add_files_messages [of E k source out "rglob (fs w) source" w] False by simp
next
  case True
  show ?thesis
  proof (cases "lib_add E k out source [name source] w")
    case None
    show ?thesis unfolding add_source_raise [OF True None] by (simp add: opens_def)
  next
    case (Some w0)
    have "adds (calls (snd (add_source E k source out w))) = adds (calls w) @ [(source, [name source])]"
      unfolding add_source_one(2) [OF True Some] by simp
    moreover have "progress (snd (add_source E k source out w)) =
          progress w @ (if progress_callback E
                        then map (\<lambda>e. (if is_file (fs w) source then ''Added: '' else ''Adding: '')
                                        @ str_path (snd e)) [(source, [name source])]
                        else [])"
      unfolding add_source_one(3) [OF True Some] using True by (simp add: str_path_single)
    moreover have "opens (calls (snd (add_source E k source out w))) = opens (calls w)"
      unfolding add_source_one(2) [OF True Some] by (simp add: opens_def)
    ultimately show ?thesis by blast
  qed
qed

lemma add_source_ok:
  assumes "fst (add_source E k source out w) = None"
  shows "adds (calls (snd (add_source E k source out w))) = adds (calls w) @ archived (fs w) source
       \<and> stats_files (snd (add_source E k source out w)) =
           (if is_file (fs w) source then 1
            else stats_files w + length (archived (fs w) source))
       \<and> map fst (held (snd (add_source E k source out w))) =
           map fst (held w) @
           map snd (filter (\<lambda>e. \<not> (skips_itself k \<and> fst e = out)) (archived (fs w) source))"
proof (cases "is_file (fs w) source")
  case False
  from assms have "fst (add_files E k source out (rglob (fs w) source) w) = None"
    unfolding add_source_walk [OF False] .
  from add_files_ok [OF this] False show ?thesis
    unfolding add_source_walk [OF False] archived_walk [OF False]
    by (simp add: filter_map comp_def)
next
  case True
  show ?thesis
  proof (cases "lib_add E k out source [name source] w")
    case None
    with assms True show ?thesis by (simp add: add_source_raise)
  next
    case (Some w0)
    show ?thesis
      unfolding add_source_one(2,4,7) [OF True Some] archived_file [OF True]
      using True lib_add_Some(8) [OF Some] by simp
  qed
qed

lemma add_source_ok_size:
  assumes "fst (add_source E k source out w) = None"
    and "out \<notin> fst ` set (archived (fs w) source)"
  shows "stats_size (snd (add_source E k source out w)) =
           (if is_file (fs w) source then st_size (fs w) source
            else stats_size w + sum_list (map (\<lambda>e. st_size (fs w) (fst e)) (archived (fs w) source)))"
proof (cases "is_file (fs w) source")
  case False
  from assms(1) have a: "fst (add_files E k source out (rglob (fs w) source) w) = None"
    unfolding add_source_walk [OF False] .
  from assms(2) have b: "out \<notin> set (filter (is_file (fs w)) (rglob (fs w) source))"
    unfolding archived_walk [OF False] by (simp add: image_iff)
  from add_files_ok_size [OF a b] False show ?thesis
    unfolding add_source_walk [OF False] archived_walk [OF False] by (simp add: comp_def)
next
  case True
  from assms(2) have n: "source \<noteq> out" unfolding archived_file [OF True] by simp
  show ?thesis
  proof (cases "lib_add E k out source [name source] w")
    case None
    with assms True show ?thesis by (simp add: add_source_raise)
  next
    case (Some w0)
    show ?thesis
      unfolding add_source_one(5) [OF True Some]
      using True lib_add_Some(7) [OF Some n] by simp
  qed
qed

lemma add_source_error:
  assumes "fst (add_source E k source out w) = Some e"
  shows "\<exists>p a pre. e = ArchiveError (Add p a)
         \<and> calls (snd (add_source E k source out w)) = calls w @ pre @ [(Add p a, Raised)]
         \<and> list_all (\<lambda>x. snd x = Returned) pre"
proof (cases "is_file (fs w) source")
  case False
  from assms have "fst (add_files E k source out (rglob (fs w) source) w) = Some e"
    unfolding add_source_walk [OF False] .
  from add_files_error [OF this] show ?thesis unfolding add_source_walk [OF False] .
next
  case True
  show ?thesis
  proof (cases "lib_add E k out source [name source] w")
    case None
    from assms have "e = ArchiveError (Add source [name source])"
      unfolding add_source_raise [OF True None] by simp
    moreover have "calls (raised (Add source [name source]) w) =
                     calls w @ [] @ [(Add source [name source], Raised)]"
      by simp
    moreover have "list_all (\<lambda>x. snd x = Returned) ([] :: (lib_call \<times> outcome) list)" by simp
    ultimately show ?thesis unfolding add_source_raise [OF True None] snd_conv by blast
  next
    case (Some w0)
    with assms add_source_one(1) [OF True Some] show ?thesis by simp
  qed
qed

lemma add_source_returned:
  assumes "fst (add_source E k source out w) = None"
  shows "\<exists>pre. calls (snd (add_source E k source out w)) = calls w @ pre
           \<and> list_all (\<lambda>x. snd x = Returned) pre"
proof (cases "is_file (fs w) source")
  case False
  from assms have "fst (add_files E k source out (rglob (fs w) source) w) = None"
    unfolding add_source_walk [OF False] .
  from add_files_returned [OF this] show ?thesis unfolding add_source_walk [OF False] .
next
  case True
  show ?thesis
  proof (cases "lib_add E k out source [name source] w")
    case None
    with assms True show ?thesis by (simp add: add_source_raise)
  next
    case (Some w0)
    have "list_all (\<lambda>x. snd x = Returned) [(Add source [name source], Returned)]" by simp
    with add_source_one(2) [OF True Some] show ?thesis by blast
  qed
qed

lemma write_archive_fail:
  "write_file (slot E) (fs w) out (flushed E k []) = None \<Longrightarrow>
   write_archive E k source out w =
     (Some (ArchiveError (OpenWrite k out)), raised (OpenWrite k out) w)"
  by (simp add: write_archive_def)

lemma write_archive_open:
  assumes "write_file (slot E) (fs w) out (flushed E k []) = Some t"
  shows "fst (write_archive E k source out w) =
           (if close_ok E k
                 (fst (add_source E k source out (call (OpenWrite k out) (w\<lparr>fs := t, held := []\<rparr>))) = None)
                 (held (snd (add_source E k source out (call (OpenWrite k out) (w\<lparr>fs := t, held := []\<rparr>)))))
            then fst (add_source E k source out (call (OpenWrite k out) (w\<lparr>fs := t, held := []\<rparr>)))
            else Some (ArchiveError CloseWrite))"
    and "calls (snd (write_archive E k source out w)) =
           calls (snd (add_source E k source out (call (OpenWrite k out) (w\<lparr>fs := t, held := []\<rparr>))))
           @ [(CloseWrite,
               if close_ok E k
                    (fst (add_source E k source out (call (OpenWrite k out) (w\<lparr>fs := t, held := []\<rparr>))) = None)
                    (held (snd (add_source E k source out (call (OpenWrite k out) (w\<lparr>fs := t, held := []\<rparr>)))))
               then Returned else Raised)]"
    and "progress (snd (write_archive E k source out w)) =
           progress (snd (add_source E k source out (call (OpenWrite k out) (w\<lparr>fs := t, held := []\<rparr>))))"
    and "stats_files (snd (write_archive E k source out w)) =
           stats_files (snd (add_source E k source out (call (OpenWrite k out) (w\<lparr>fs := t, held := []\<rparr>))))"
    and "stats_size (snd (write_archive E k source out w)) =
           stats_size (snd (add_source E k source out (call (OpenWrite k out) (w\<lparr>fs := t, held := []\<rparr>))))"
    and "held (snd (write_archive E k source out w)) =
           held (snd (add_source E k source out (call (OpenWrite k out) (w\<lparr>fs := t, held := []\<rparr>))))"
  using assms by (simp_all add: write_archive_def Let_def)

lemma write_archive_body:
  assumes "write_file (slot E) (fs w) out (flushed E k []) = Some t"
    and "fst (write_archive E k source out w) = None"
  shows "fst (add_source E k source out (call (OpenWrite k out) (w\<lparr>fs := t, held := []\<rparr>))) = None"
  using assms(2) unfolding write_archive_open(1) [OF assms(1)] by (simp split: if_splits)

lemma adds_close [simp]: "adds (cs @ [(CloseWrite, x)]) = adds cs"
  by (cases x) simp_all

lemma opens_close [simp]: "opens (cs @ [(CloseWrite, x)]) = opens cs"
  by (simp add: opens_def)

lemma write_archive_fs:
  assumes "write_file (slot E) (fs w) out (flushed E k []) = Some t"
  shows "\<exists>b. fs (snd (write_archive E k source out w)) =
           set_bytes (fs (snd (add_source E k source out (call (OpenWrite k out) (w\<lparr>fs := t, held := []\<rparr>)))))
             out b"
  using assms by (auto simp add: write_archive_def Let_def)

lemma opened_Some:
  "write_file (slot E) t0 out (flushed E k []) = Some t \<Longrightarrow> opened E k t0 out = t"
  by (simp add: opened_def)

lemma opens_write_archive:
  "opens (calls (snd (write_archive E k source out w))) = opens (calls w) @ [OpenWrite k out]"
proof (cases "write_file (slot E) (fs w) out (flushed E k [])")
  case None
  then show ?thesis by (simp add: write_archive_fail opens_def)
next
  case (Some t)
  let ?w1 = "call (OpenWrite k out) (w\<lparr>fs := t, held := []\<rparr>)"
  from add_source_messages [of E k source out ?w1]
  have "opens (calls (snd (add_source E k source out ?w1))) = opens (calls ?w1)" by blast
  then show ?thesis unfolding write_archive_open(2) [OF Some] by (simp add: opens_def)
qed

text \<open>Whatever the outcome of the writer: one message for each addition that returned.\<close>

lemma write_archive_messages:
  assumes "progress_callback E" and "exists (fs w) source"
  shows "progress (snd (write_archive E k source out w)) =
           progress w @ map (\<lambda>e. (if is_file (fs w) source then ''Added: '' else ''Adding: '')
                                     @ str_path (snd e))
                          (drop (length (adds (calls w))) (adds (calls (snd (write_archive E k source out w)))))"
proof (cases "write_file (slot E) (fs w) out (flushed E k [])")
  case None
  then show ?thesis by (simp add: write_archive_fail)
next
  case (Some t)
  let ?w1 = "call (OpenWrite k out) (w\<lparr>fs := t, held := []\<rparr>)"
  have f: "is_file (fs ?w1) source = is_file (fs w) source"
    using is_file_after_open [OF Some assms(2)] by simp
  from add_source_messages [of E k source out ?w1] obtain xs where
    a: "adds (calls (snd (add_source E k source out ?w1))) = adds (calls ?w1) @ xs" and
    b: "progress (snd (add_source E k source out ?w1)) =
          progress ?w1 @ (if progress_callback E
                        then map (\<lambda>e. (if is_file (fs ?w1) source then ''Added: '' else ''Adding: '')
                                        @ str_path (snd e)) xs
                        else [])"
    by blast
  have "adds (calls (snd (write_archive E k source out w))) = adds (calls w) @ xs"
    unfolding write_archive_open(2) [OF Some] using a by simp
  then have d: "drop (length (adds (calls w))) (adds (calls (snd (write_archive E k source out w)))) = xs"
    by simp
  show ?thesis unfolding d write_archive_open(3) [OF Some] b f using assms(1) by simp
qed

text \<open>A writer that ends without an error.\<close>

lemma write_archive_ok:
  assumes "fst (write_archive E k source out w) = None"
  shows "write_file (slot E) (fs w) out (flushed E k []) = Some (opened E k (fs w) out)"
    and "adds (calls (snd (write_archive E k source out w))) =
           adds (calls w) @ archived (opened E k (fs w) out) source"
    and "stats_files (snd (write_archive E k source out w)) =
           (if is_file (opened E k (fs w) out) source then 1
            else stats_files w + length (archived (opened E k (fs w) out) source))"
    and "map fst (held (snd (write_archive E k source out w))) =
           map snd (filter (\<lambda>e. \<not> (skips_itself k \<and> fst e = out))
                      (archived (opened E k (fs w) out) source))"
    and "exists (fs (snd (write_archive E k source out w))) out"
proof -
  obtain t where Some: "write_file (slot E) (fs w) out (flushed E k []) = Some t"
    using assms by (cases "write_file (slot E) (fs w) out (flushed E k [])")
      (simp_all add: write_archive_fail)
  let ?w1 = "call (OpenWrite k out) (w\<lparr>fs := t, held := []\<rparr>)"
  have t: "opened E k (fs w) out = t" by (rule opened_Some [OF Some])
  have ok: "fst (add_source E k source out ?w1) = None"
    by (rule write_archive_body [OF Some assms])
  note S = add_source_ok [OF ok]
  show "write_file (slot E) (fs w) out (flushed E k []) = Some (opened E k (fs w) out)"
    unfolding t by (rule Some)
  show "adds (calls (snd (write_archive E k source out w))) =
           adds (calls w) @ archived (opened E k (fs w) out) source"
    unfolding t write_archive_open(2) [OF Some] using S by simp
  show "stats_files (snd (write_archive E k source out w)) =
           (if is_file (opened E k (fs w) out) source then 1
            else stats_files w + length (archived (opened E k (fs w) out) source))"
    unfolding t write_archive_open(4) [OF Some] using S by simp
  show "map fst (held (snd (write_archive E k source out w))) =
           map snd (filter (\<lambda>e. \<not> (skips_itself k \<and> fst e = out))
                      (archived (opened E k (fs w) out) source))"
    unfolding t write_archive_open(6) [OF Some] using S by simp
  from write_archive_fs [OF Some, of source] obtain b where
    "fs (snd (write_archive E k source out w)) =
       set_bytes (fs (snd (add_source E k source out ?w1))) out b" by blast
  moreover have "exists (fs (snd (add_source E k source out ?w1))) out"
    using add_source_shape [of E k source out ?w1 out] is_file_write_file_out [OF Some]
    by (simp add: is_file_exists)
  ultimately show "exists (fs (snd (write_archive E k source out w))) out" by simp
qed

lemma write_archive_ok_size:
  assumes "fst (write_archive E k source out w) = None"
    and "out \<notin> fst ` set (archived (opened E k (fs w) out) source)"
  shows "stats_size (snd (write_archive E k source out w)) =
           (if is_file (opened E k (fs w) out) source then 0 else stats_size w)
           + sum_list (map (\<lambda>e. st_size (fs w) (fst e)) (archived (opened E k (fs w) out) source))"
proof -
  note Some = write_archive_ok(1) [OF assms(1)]
  let ?t = "opened E k (fs w) out"
  let ?w1 = "call (OpenWrite k out) (w\<lparr>fs := ?t, held := []\<rparr>)"
  have ok: "fst (add_source E k source out ?w1) = None"
    by (rule write_archive_body [OF Some assms(1)])
  have n: "out \<notin> fst ` set (archived (fs ?w1) source)" using assms(2) by simp
  have z: "st_size ?t (fst e) = st_size (fs w) (fst e)"
    if "e \<in> set (archived ?t source)" for e
  proof -
    from that assms(2) have "fst e \<noteq> out" by auto
    moreover from that have "is_file ?t (fst e)"
      by (auto simp add: archived_def split: if_splits)
    ultimately have "lookup ?t (fst e) = lookup (fs w) (fst e)"
      using file_kept_by_write_file [OF Some] by blast
    then show ?thesis by (simp add: st_size_def)
  qed
  then have m: "map (\<lambda>e. st_size ?t (fst e)) (archived ?t source) =
                map (\<lambda>e. st_size (fs w) (fst e)) (archived ?t source)"
    by (intro map_cong refl)
  show ?thesis
  proof (cases "is_file ?t source")
    case True
    then have "st_size ?t source = st_size (fs w) source"
      using z [of "(source, [name source])"] by (simp add: archived_file)
    then show ?thesis
      unfolding write_archive_open(5) [OF Some] add_source_ok_size [OF ok n]
      using True by (simp add: archived_file)
  next
    case False
    then have "stats_size (snd (write_archive E k source out w)) =
                 stats_size w + sum_list (map (\<lambda>e. st_size ?t (fst e)) (archived ?t source))"
      unfolding write_archive_open(5) [OF Some] add_source_ok_size [OF ok n] by simp
    also have "\<dots> = stats_size w + sum_list (map (\<lambda>e. st_size (fs w) (fst e)) (archived ?t source))"
      by (simp only: m)
    finally show ?thesis using False by simp
  qed
qed

text \<open>A writer that ends with an error.\<close>

lemma write_archive_error:
  assumes "fst (write_archive E k source out w) = Some e"
  shows "\<exists>c pre post. e = ArchiveError c
         \<and> calls (snd (write_archive E k source out w)) = calls w @ pre @ post
         \<and> list_all (\<lambda>x. snd x = Returned) pre
         \<and> (post = [(c, Raised)] \<or> post = [(c, Raised), (CloseWrite, Returned)]
              \<or> c = CloseWrite \<and> (\<exists>c0. post = [(c0, Raised), (CloseWrite, Raised)]))"
proof (cases "write_file (slot E) (fs w) out (flushed E k [])")
  case None
  from assms have "e = ArchiveError (OpenWrite k out)" unfolding write_archive_fail [OF None] by simp
  moreover have "calls (raised (OpenWrite k out) w) = calls w @ [] @ [(OpenWrite k out, Raised)]"
    by simp
  moreover have "list_all (\<lambda>x. snd x = Returned) ([] :: (lib_call \<times> outcome) list)" by simp
  ultimately show ?thesis unfolding write_archive_fail [OF None] snd_conv by blast
next
  case (Some t)
  let ?w1 = "call (OpenWrite k out) (w\<lparr>fs := t, held := []\<rparr>)"
  let ?b = "add_source E k source out ?w1"
  let ?ok = "close_ok E k (fst ?b = None) (held (snd ?b))"
  have c1: "calls ?w1 = calls w @ [(OpenWrite k out, Returned)]" by simp
  show ?thesis
  proof (cases "fst ?b")
    case None
    from add_source_returned [OF None] obtain pre where
      c: "calls (snd ?b) = calls ?w1 @ pre" and
      r: "list_all (\<lambda>x. snd x = Returned) pre"
      by blast
    have n: "\<not> ?ok" using assms None unfolding write_archive_open(1) [OF Some]
      by (simp split: if_splits)
    then have e: "e = ArchiveError CloseWrite"
      using assms unfolding write_archive_open(1) [OF Some] by simp
    have "calls (snd (write_archive E k source out w)) =
            calls w @ ((OpenWrite k out, Returned) # pre) @ [(CloseWrite, Raised)]"
      unfolding write_archive_open(2) [OF Some] c using n by simp
    moreover have "list_all (\<lambda>x. snd x = Returned) ((OpenWrite k out, Returned) # pre)"
      using r by simp
    ultimately show ?thesis using e by blast
  next
    case (Some e0)
    from add_source_error [OF Some] obtain p a pre where
      e0: "e0 = ArchiveError (Add p a)" and
      c: "calls (snd ?b) = calls ?w1 @ pre @ [(Add p a, Raised)]" and
      r: "list_all (\<lambda>x. snd x = Returned) pre"
      by blast
    have r': "list_all (\<lambda>x. snd x = Returned) ((OpenWrite k out, Returned) # pre)"
      using r by simp
    show ?thesis
    proof (cases ?ok)
      case True
      then have e: "e = ArchiveError (Add p a)"
        using assms Some e0 unfolding write_archive_open(1) [OF \<open>write_file (slot E) (fs w) out (flushed E k []) = Some t\<close>]
        by simp
      have "calls (snd (write_archive E k source out w)) =
              calls w @ ((OpenWrite k out, Returned) # pre) @ [(Add p a, Raised), (CloseWrite, Returned)]"
        unfolding write_archive_open(2) [OF \<open>write_file (slot E) (fs w) out (flushed E k []) = Some t\<close>] c
        using True by simp
      with r' e show ?thesis by blast
    next
      case False
      then have e: "e = ArchiveError CloseWrite"
        using assms unfolding write_archive_open(1) [OF \<open>write_file (slot E) (fs w) out (flushed E k []) = Some t\<close>]
        by simp
      have "calls (snd (write_archive E k source out w)) =
              calls w @ ((OpenWrite k out, Returned) # pre) @ [(Add p a, Raised), (CloseWrite, Raised)]"
        unfolding write_archive_open(2) [OF \<open>write_file (slot E) (fs w) out (flushed E k []) = Some t\<close>] c
        using False by simp
      with r' e show ?thesis by blast
    qed
  qed
qed

lemma reset_fs [simp]: "fs (reset_stats w) = fs w"
  by (simp add: reset_stats_def)

lemma compress_world:
  "exists (fs w) source \<Longrightarrow>
   snd (compress E source out fmt w) =
     snd (compress_dispatch E source out fmt
            (update_progress E (''Starting compression to '' @ upper fmt @ ''...'') (reset_stats w)))"
  by (cases "compress_dispatch E source out fmt
            (update_progress E (''Starting compression to '' @ upper fmt @ ''...'') (reset_stats w))")
     (simp add: compress_def Let_def compress_stats_def split: option.splits sum.splits)

lemma compress_error:
  "exists (fs w) source \<Longrightarrow>
   fst (compress_dispatch E source out fmt
            (update_progress E (''Starting compression to '' @ upper fmt @ ''...'') (reset_stats w))) = Some e \<Longrightarrow>
   fst (compress E source out fmt w) = Inl e"
  by (cases "compress_dispatch E source out fmt
            (update_progress E (''Starting compression to '' @ upper fmt @ ''...'') (reset_stats w))")
     (simp add: compress_def Let_def)

lemma start_fs [simp]: "fs (update_progress E m (reset_stats w)) = fs w"
  by (simp add: update_progress_def reset_stats_def)

lemma start_calls [simp]: "calls (update_progress E m (reset_stats w)) = calls w"
  by (simp add: update_progress_def reset_stats_def)

lemma dispatch_codec:
  "format_codec fmt = Some k \<Longrightarrow> (k = SevenZipFile \<longrightarrow> HAS_7Z E) \<Longrightarrow>
   compress_dispatch E source out fmt w = write_archive E k source out w"
  by (auto simp add: format_codec_def compress_dispatch_def compress_zip_def compress_tar_def
        compress_7z_def mode_map_def split: if_splits)

lemma dispatch_no_codec:
  "format_codec fmt = None \<Longrightarrow>
   compress_dispatch E source out fmt w =
     (Some (ValueError (''Unsupported compression format: '' @ fmt)), w)"
  by (auto simp add: format_codec_def compress_dispatch_def split: if_splits)

lemma dispatch_no_7z:
  "format_codec fmt = Some SevenZipFile \<Longrightarrow> \<not> HAS_7Z E \<Longrightarrow>
   compress_dispatch E source out fmt w =
     (Some (ImportError ''py7zr not installed. Install with: pip install py7zr''), w)"
  by (auto simp add: format_codec_def compress_dispatch_def compress_7z_def split: if_splits)

lemma dispatch_ok:
  assumes "fst (compress_dispatch E source out fmt w) = None"
  shows "\<exists>k. format_codec fmt = Some k
           \<and> compress_dispatch E source out fmt w = write_archive E k source out w"
proof (cases "format_codec fmt")
  case None
  with assms show ?thesis by (simp add: dispatch_no_codec)
next
  case (Some k)
  show ?thesis
  proof (cases "k = SevenZipFile \<and> \<not> HAS_7Z E")
    case True
    with assms Some show ?thesis by (simp add: dispatch_no_7z)
  next
    case False
    then show ?thesis using Some by (simp add: dispatch_codec)
  qed
qed

lemma compress_ok:
  assumes "fst (compress E source out fmt w) = Inr r"
  shows "exists (fs w) source \<and>
         fst (compress_dispatch E source out fmt
                (update_progress E (''Starting compression to '' @ upper fmt @ ''...'') (reset_stats w))) = None \<and>
         files r = stats_files (snd (compress E source out fmt w)) \<and>
         original_size r = stats_size (snd (compress E source out fmt w)) \<and>
         compressed_size r = st_size (fs (snd (compress E source out fmt w))) out \<and>
         compression_ratio (compressed_size r) (original_size r) = Inr (ratio r)"
proof -
  let ?w1 = "update_progress E (''Starting compression to '' @ upper fmt @ ''...'') (reset_stats w)"
  have ex: "exists (fs w) source"
    using assms by (auto simp add: compress_def Let_def split: if_splits)
  obtain a b where d: "compress_dispatch E source out fmt ?w1 = (a, b)"
    by (cases "compress_dispatch E source out fmt ?w1")
  with assms ex have a: "a = None"
    by (cases a) (simp_all add: compress_def Let_def)
  with assms ex d have s: "compress_stats out b = (Inr r, snd (compress E source out fmt w))"
    by (simp add: compress_def Let_def compress_stats_def split: if_splits sum.splits)
  then have "b = snd (compress E source out fmt w)"
    by (simp add: compress_stats_def Let_def split: if_splits sum.splits)
  with s show ?thesis using ex d a
    by (auto simp add: compress_stats_def Let_def split: if_splits sum.splits)
qed

lemma start_stats [simp]:
  "stats_files (update_progress E m (reset_stats w)) = 0"
  "stats_size (update_progress E m (reset_stats w)) = 0"
  by (simp_all add: update_progress_def reset_stats_def)

lemma start_progress:
  "progress_callback E \<Longrightarrow> progress (update_progress E m (reset_stats w)) = progress w @ [m]"
  by (simp add: update_progress_def reset_stats_def)

lemma start_held [simp]: "held (update_progress E m (reset_stats w)) = held w"
  by (simp add: update_progress_def reset_stats_def)

lemma compress_ok_writer:
  assumes "fst (compress E source out fmt w) = Inr r" and "format_codec fmt = Some k"
  shows "fst (write_archive E k source out
                (update_progress E (''Starting compression to '' @ upper fmt @ ''...'') (reset_stats w))) = None"
    and "snd (compress E source out fmt w) =
           snd (write_archive E k source out
                 (update_progress E (''Starting compression to '' @ upper fmt @ ''...'') (reset_stats w)))"
proof -
  let ?w1 = "update_progress E (''Starting compression to '' @ upper fmt @ ''...'') (reset_stats w)"
  from compress_ok [OF assms(1)] have ex: "exists (fs w) source"
    and d: "fst (compress_dispatch E source out fmt ?w1) = None"
    by blast+
  from dispatch_ok [OF d] assms(2)
  have e: "compress_dispatch E source out fmt ?w1 = write_archive E k source out ?w1" by auto
  show "fst (write_archive E k source out ?w1) = None" using d e by simp
  show "snd (compress E source out fmt w) = snd (write_archive E k source out ?w1)"
    using compress_world [OF ex, of E out fmt] e by simp
qed

lemma compression_ratio_total:
  "compression_ratio a b = Inr (if b = 0 then 0 else (1 - of_nat a / of_nat b) * 100)"
  by (simp add: compression_ratio_def truediv_def)

lemma write_archive_from_library:
  "fst (write_archive E k source out w) = Some e \<Longrightarrow> from_library e"
  using write_archive_error [of E k source out w e] by auto

lemma compress_dispatch_error:
  assumes "fst (compress_dispatch E source out fmt w) = Some e"
  shows "from_library e
       \<or> e = ValueError (''Unsupported compression format: '' @ fmt) \<and> format_codec fmt = None
       \<or> e = ImportError ''py7zr not installed. Install with: pip install py7zr''
           \<and> fmt = ''7z'' \<and> \<not> HAS_7Z E"
proof (cases "format_codec fmt")
  case None
  with assms show ?thesis by (simp add: dispatch_no_codec)
next
  case (Some k)
  show ?thesis
  proof (cases "k = SevenZipFile \<and> \<not> HAS_7Z E")
    case True
    then have "fmt = ''7z''" using Some by (auto simp add: format_codec_def split: if_splits)
    with assms Some True show ?thesis by (simp add: dispatch_no_7z)
  next
    case False
    with assms Some have "fst (write_archive E k source out w) = Some e"
      by (simp add: dispatch_codec)
    then show ?thesis using write_archive_from_library by blast
  qed
qed

lemma compress_stats_error:
  "fst (compress_stats out w) = Inl e \<Longrightarrow> e = OSError out"
  by (auto simp add: compress_stats_def Let_def compression_ratio_total split: if_splits)

lemma compress_errors:
  assumes "fst (compress E source out fmt w) = Inl e"
  shows "from_library e
       \<or> e = FileNotFoundError (''Source path not found: '' @ str_path source)
           \<and> \<not> exists (fs w) source
       \<or> e = ValueError (''Unsupported compression format: '' @ fmt) \<and> format_codec fmt = None
       \<or> e = ImportError ''py7zr not installed. Install with: pip install py7zr''
           \<and> fmt = ''7z'' \<and> \<not> HAS_7Z E"
proof (cases "exists (fs w) source")
  case False
  with assms show ?thesis by (simp add: compress_def Let_def)
next
  case True
  let ?w1 = "update_progress E (''Starting compression to '' @ upper fmt @ ''...'') (reset_stats w)"
  obtain a b where d: "compress_dispatch E source out fmt ?w1 = (a, b)"
    by (cases "compress_dispatch E source out fmt ?w1")
  show ?thesis
  proof (cases a)
    case None
    with assms True d have "fst (compress_stats out b) = Inl e"
      by (simp add: compress_def Let_def)
    then have "e = OSError out" by (rule compress_stats_error)
    then show ?thesis by simp
  next
    case (Some e')
    with assms True d have "e' = e" by (simp add: compress_def Let_def)
    with Some d have "fst (compress_dispatch E source out fmt ?w1) = Some e" by simp
    from compress_dispatch_error [OF this] show ?thesis by blast
  qed
qed

subsection \<open>Format dispatch\<close>

text \<open>
  C1. On an existing source, \<open>compress\<close> opens exactly one archive, with the codec the
  format name stands for: \<^verbatim>\<open>zip\<close> the ZIP writer, \<^verbatim>\<open>tar.gz\<close> and \<^verbatim>\<open>tgz\<close> tar with
  gzip, \<^verbatim>\<open>tar.bz2\<close> tar with bzip2, \<^verbatim>\<open>tar.xz\<close> tar with xz, \<^verbatim>\<open>7z\<close> the 7-Zip writer
  (which raises \<^verbatim>\<open>ImportError\<close> before opening anything when py7zr is missing). For every
  other format name it raises \<^verbatim>\<open>ValueError\<close>, calls no library and leaves the file tree
  as it was.
\<close>

theorem compress_dispatches_on_format:
  assumes "exists (fs w) source"
  shows "case format_codec fmt of
           None \<Rightarrow>
             fst (compress E source out fmt w) =
               Inl (ValueError (''Unsupported compression format: '' @ fmt))
             \<and> fs (snd (compress E source out fmt w)) = fs w
             \<and> calls (snd (compress E source out fmt w)) = calls w
         | Some k \<Rightarrow>
             if k = SevenZipFile \<and> \<not> HAS_7Z E
             then fst (compress E source out fmt w) =
                    Inl (ImportError ''py7zr not installed. Install with: pip install py7zr'')
                  \<and> fs (snd (compress E source out fmt w)) = fs w
                  \<and> calls (snd (compress E source out fmt w)) = calls w
             else opens (calls (snd (compress E source out fmt w))) =
                    opens (calls w) @ [OpenWrite k out]"
proof -
  let ?w1 = "update_progress E (''Starting compression to '' @ upper fmt @ ''...'') (reset_stats w)"
  note W = compress_world [OF assms]
  note Er = compress_error [OF assms]
  consider (zip) "fmt = ''zip''" | (gz) "fmt = ''tar.gz'' \<or> fmt = ''tgz''" | (bz2) "fmt = ''tar.bz2''"
    | (xz) "fmt = ''tar.xz''" | (sz) "fmt = ''7z''"
    | (other) "fmt \<noteq> ''zip''" "fmt \<noteq> ''tar.gz''" "fmt \<noteq> ''tgz''" "fmt \<noteq> ''tar.bz2''"
        "fmt \<noteq> ''tar.xz''" "fmt \<noteq> ''7z''"
    by blast
  then show ?thesis
  proof cases
    case zip
    then show ?thesis
      by (simp add: W format_codec_def compress_dispatch_def compress_zip_def opens_write_archive)
  next
    case gz
    then show ?thesis
      by (auto simp add: W format_codec_def compress_dispatch_def compress_tar_def mode_map_def opens_write_archive)
  next
    case bz2
    then show ?thesis
      by (simp add: W format_codec_def compress_dispatch_def compress_tar_def mode_map_def opens_write_archive)
  next
    case xz
    then show ?thesis
      by (simp add: W format_codec_def compress_dispatch_def compress_tar_def mode_map_def opens_write_archive)
  next
    case sz
    show ?thesis
    proof (cases "HAS_7Z E")
      case True
      then show ?thesis using sz
        by (simp add: W format_codec_def compress_dispatch_def compress_7z_def opens_write_archive)
    next
      case False
      then have "fst (compress_dispatch E source out fmt ?w1) =
                   Some (ImportError ''py7zr not installed. Install with: pip install py7zr'')"
        using sz by (simp add: compress_dispatch_def compress_7z_def)
      from Er [OF this] False sz show ?thesis
        by (simp add: W format_codec_def compress_dispatch_def compress_7z_def)
    qed
  next
    case other
    then have "fst (compress_dispatch E source out fmt ?w1) =
                 Some (ValueError (''Unsupported compression format: '' @ fmt))"
      by (simp add: compress_dispatch_def)
    from Er [OF this] other show ?thesis
      by (simp add: W format_codec_def compress_dispatch_def)
  qed
qed

theorem compress_dispatches_on_format_witness:
  "exists (fs demo_world) [''d''] \<and>
   opens (calls (snd (compress demo_env [''d''] [''out.tgz''] ''tgz'' demo_world))) =
     [OpenWrite (TarFile ''w:gz'') [''out.tgz'']]"
proof -
  have h: "exists (fs demo_world) [''d'']"
    by (simp add: exists_def demo_world_def demo_tree_def)
  have "format_codec ''tgz'' = Some (TarFile ''w:gz'')"
    by (simp add: format_codec_def)
  with compress_dispatches_on_format [OF h, where fmt = "''tgz''" and E = demo_env and out = "[''out.tgz'']"] h
  show ?thesis by (simp add: demo_world_def opens_def)
qed

subsection \<open>Progress messages\<close>




subsection \<open>The ratio\<close>

text \<open>
  C8. \<open>compress\<close> never fails with a division by zero, and the ratio it returns is 0
  when the accumulated original size is 0 and \<open>(1 - compressed_size / original_size) * 100\<close>
  otherwise (in exact arithmetic).
\<close>

theorem ratio_is_guarded:
  "fst (compress E source out fmt w) \<noteq> Inl ZeroDivisionError
   \<and> (fst (compress E source out fmt w) = Inr r \<longrightarrow>
        ratio r = (if original_size r = 0 then 0
                   else (1 - of_nat (compressed_size r) / of_nat (original_size r)) * 100))"
proof (rule conjI)
  show "fst (compress E source out fmt w) \<noteq> Inl ZeroDivisionError"
  proof
    assume "fst (compress E source out fmt w) = Inl ZeroDivisionError"
    from compress_errors [OF this] show False by simp
  qed
next
  show "fst (compress E source out fmt w) = Inr r \<longrightarrow>
        ratio r = (if original_size r = 0 then 0
                   else (1 - of_nat (compressed_size r) / of_nat (original_size r)) * 100)"
  proof
    assume "fst (compress E source out fmt w) = Inr r"
    from compress_ok [OF this]
    have "compression_ratio (compressed_size r) (original_size r) = Inr (ratio r)" by blast
    then show "ratio r = (if original_size r = 0 then 0
                   else (1 - of_nat (compressed_size r) / of_nat (original_size r)) * 100)"
      unfolding compression_ratio_total by simp
  qed
qed

theorem ratio_is_guarded_witness:
  "fst (compress demo_env [''d'', ''e''] [''out.zip''] ''zip'' demo_world) =
     Inr \<lparr>files = 0, original_size = 0, compressed_size = 0, ratio = 0\<rparr>
   \<and> fst (compress demo_env [''d''] [''out.zip''] ''zip'' demo_world) =
     Inr \<lparr>files = 2, original_size = 7, compressed_size = 12, ratio = (1 - 12 / 7) * 100\<rparr>"
proof -
  let ?r = "\<lparr>files = 2, original_size = 7, compressed_size = 12, ratio = - (500 / 7)\<rparr>"
  have a: "fst (compress demo_env [''d'', ''e''] [''out.zip''] ''zip'' demo_world) =
     Inr \<lparr>files = 0, original_size = 0, compressed_size = 0, ratio = 0\<rparr>"
    by code_simp
  have b: "fst (compress demo_env [''d''] [''out.zip''] ''zip'' demo_world) = Inr ?r"
    by code_simp
  from ratio_is_guarded [of demo_env "[''d'']" "[''out.zip'']" "''zip''" demo_world ?r] b
  have "ratio ?r = (1 - 12 / 7) * 100" by simp
  with a b show ?thesis by simp
qed

subsection \<open>Statistics\<close>

lemma compress_adds:
  assumes "fst (compress E source out fmt w) = Inr r" and "format_codec fmt = Some k"
  shows "adds (calls (snd (compress E source out fmt w))) =
           adds (calls w) @ archived (opened E k (fs w) out) source"
proof -
  let ?w1 = "update_progress E (''Starting compression to '' @ upper fmt @ ''...'') (reset_stats w)"
  have n: "fst (write_archive E k source out ?w1) = None"
    by (rule compress_ok_writer(1) [OF assms])
  have s: "snd (compress E source out fmt w) = snd (write_archive E k source out ?w1)"
    by (rule compress_ok_writer(2) [OF assms])
  show ?thesis unfolding s write_archive_ok(2) [OF n] by simp
qed

lemma compress_held:
  assumes "fst (compress E source out fmt w) = Inr r" and "format_codec fmt = Some k"
  shows "map fst (held (snd (compress E source out fmt w))) =
           map snd (filter (\<lambda>e. \<not> (skips_itself k \<and> fst e = out))
                      (archived (opened E k (fs w) out) source))"
proof -
  let ?w1 = "update_progress E (''Starting compression to '' @ upper fmt @ ''...'') (reset_stats w)"
  have n: "fst (write_archive E k source out ?w1) = None"
    by (rule compress_ok_writer(1) [OF assms])
  have s: "snd (compress E source out fmt w) = snd (write_archive E k source out ?w1)"
    by (rule compress_ok_writer(2) [OF assms])
  show ?thesis unfolding s write_archive_ok(4) [OF n] by simp
qed

lemma compress_files:
  assumes "fst (compress E source out fmt w) = Inr r" and "format_codec fmt = Some k"
  shows "files r = length (archived (opened E k (fs w) out) source)"
proof -
  let ?w1 = "update_progress E (''Starting compression to '' @ upper fmt @ ''...'') (reset_stats w)"
  have n: "fst (write_archive E k source out ?w1) = None"
    by (rule compress_ok_writer(1) [OF assms])
  have s: "snd (compress E source out fmt w) = snd (write_archive E k source out ?w1)"
    by (rule compress_ok_writer(2) [OF assms])
  have "files r = stats_files (snd (compress E source out fmt w))"
    using compress_ok [OF assms(1)] by simp
  also have "\<dots> = (if is_file (opened E k (fs w) out) source then 1
                   else length (archived (opened E k (fs w) out) source))"
    unfolding s write_archive_ok(3) [OF n] by simp
  also have "\<dots> = length (archived (opened E k (fs w) out) source)"
    by (simp add: archived_file)
  finally show ?thesis .
qed

lemma compress_size:
  assumes "fst (compress E source out fmt w) = Inr r" and "format_codec fmt = Some k"
    and "out \<notin> fst ` set (archived (opened E k (fs w) out) source)"
  shows "original_size r =
           sum_list (map (\<lambda>e. st_size (fs w) (fst e)) (archived (opened E k (fs w) out) source))"
proof -
  let ?w1 = "update_progress E (''Starting compression to '' @ upper fmt @ ''...'') (reset_stats w)"
  have n: "fst (write_archive E k source out ?w1) = None"
    by (rule compress_ok_writer(1) [OF assms(1,2)])
  have s: "snd (compress E source out fmt w) = snd (write_archive E k source out ?w1)"
    by (rule compress_ok_writer(2) [OF assms(1,2)])
  have a: "out \<notin> fst ` set (archived (opened E k (fs ?w1) out) source)"
    using assms(3) by simp
  have "original_size r = stats_size (snd (compress E source out fmt w))"
    using compress_ok [OF assms(1)] by simp
  also have "\<dots> = sum_list (map (\<lambda>e. st_size (fs w) (fst e)) (archived (opened E k (fs w) out) source))"
    unfolding s write_archive_ok_size [OF n a] by simp
  finally show ?thesis .
qed

lemma paths_archived:
  "map fst (archived t source) =
     (if is_file t source then [source] else filter (is_file t) (rglob t source))"
  by (simp add: archived_def comp_def)




subsection \<open>The walk\<close>

lemma relative_to_parent:
  "relative_to (source @ q) (parent source) = (if source = [] then [] else [last source]) @ q"
proof (cases "source = []")
  case True
  then show ?thesis by (simp add: relative_to_def parent_def)
next
  case False
  then have s: "source = butlast source @ [last source]" by simp
  have "relative_to (source @ q) (parent source) =
          drop (length (butlast source)) ((butlast source @ [last source]) @ q)"
    unfolding relative_to_def parent_def using s by simp
  also have "\<dots> = [last source] @ q" by simp
  finally show ?thesis using False by simp
qed

lemma walk_prefix: "x \<in> set (walk n p) \<Longrightarrow> \<exists>q. x = p @ q \<and> q \<noteq> []"
proof (induction n p arbitrary: x rule: walk.induct)
  case (1 b p)
  then show ?case by simp
next
  case (2 es p)
  from "2.prems" have "x \<in> (\<lambda>e. p @ [fst e]) ` set es \<or> (\<exists>e\<in>set es. x \<in> set (walk (snd e) (p @ [fst e])))"
    unfolding walk_Dir_set by blast
  then show ?case
  proof
    assume "x \<in> (\<lambda>e. p @ [fst e]) ` set es"
    then show ?thesis by blast
  next
    assume "\<exists>e\<in>set es. x \<in> set (walk (snd e) (p @ [fst e]))"
    then obtain e where e: "e \<in> set es" "x \<in> set (walk (snd e) (p @ [fst e]))" by blast
    from "2.IH" [OF e] obtain q where "x = (p @ [fst e]) @ q" by blast
    then have "x = p @ (fst e # q)" by simp
    then show ?thesis by blast
  qed
qed

lemma rglob_prefix: "x \<in> set (rglob t p) \<Longrightarrow> \<exists>q. x = p @ q \<and> q \<noteq> []"
  unfolding rglob_def by (cases "lookup t p") (simp_all add: walk_prefix)

lemma arcname_below:
  assumes "x \<in> set (rglob t source)"
  shows "relative_to x (parent source) =
           (if source = [] then [] else [last source]) @ drop (length source) x"
proof -
  from rglob_prefix [OF assms] obtain q where q: "x = source @ q" by blast
  show ?thesis unfolding q relative_to_parent by simp
qed

lemma archived_names:
  assumes "\<not> is_file t source"
  shows "archived t source =
           map (\<lambda>p. (p, (if source = [] then [] else [last source]) @ drop (length source) p))
             (filter (is_file t) (rglob t source))"
  unfolding archived_walk [OF assms]
proof (rule map_cong [OF refl])
  fix x assume "x \<in> set (filter (is_file t) (rglob t source))"
  then have "x \<in> set (rglob t source)" by simp
  then show "(x, relative_to x (parent source)) =
               (x, (if source = [] then [] else [last source]) @ drop (length source) x)"
    by (simp only: arcname_below)
qed

lemma walks_distinct:
  assumes "distinct (map fst es)"
    and "\<And>e. e \<in> set es \<Longrightarrow> distinct (walk (snd e) (p @ [fst e]))"
  shows "distinct (concat (map (\<lambda>e. walk (snd e) (p @ [fst e])) es))"
  using assms
proof (induction es)
  case Nil
  then show ?case by simp
next
  case (Cons e es)
  have d1: "distinct (walk (snd e) (p @ [fst e]))" using Cons.prems(2) by simp
  have d2: "distinct (concat (map (\<lambda>e. walk (snd e) (p @ [fst e])) es))"
    using Cons.IH Cons.prems by simp
  have n: "fst e \<notin> fst ` set es" using Cons.prems(1) by simp
  have "x \<notin> set (concat (map (\<lambda>e. walk (snd e) (p @ [fst e])) es))"
    if x: "x \<in> set (walk (snd e) (p @ [fst e]))" for x
  proof
    assume "x \<in> set (concat (map (\<lambda>e. walk (snd e) (p @ [fst e])) es))"
    then obtain e' where e': "e' \<in> set es" "x \<in> set (walk (snd e') (p @ [fst e']))" by auto
    from walk_prefix [OF x] obtain q where q: "x = (p @ [fst e]) @ q" by blast
    from walk_prefix [OF e'(2)] obtain q' where q': "x = (p @ [fst e']) @ q'" by blast
    from q q' have "fst e = fst e'" by simp
    with e'(1) n show False by force
  qed
  then have "set (walk (snd e) (p @ [fst e])) \<inter>
             set (concat (map (\<lambda>e. walk (snd e) (p @ [fst e])) es)) = {}"
    by blast
  with d1 d2 show ?case by simp
qed

lemma walk_distinct: "wf_tree n \<Longrightarrow> distinct (walk n p)"
proof (induction n p rule: walk.induct)
  case (1 b p)
  then show ?case by simp
next
  case (2 es p)
  from "2.prems" have d: "distinct (map fst es)" and w: "\<And>e. e \<in> set es \<Longrightarrow> wf_tree (snd e)"
    by simp_all
  have m: "map (\<lambda>e. p @ [fst e]) es = map (\<lambda>c. p @ [c]) (map fst es)" by simp
  have "distinct (map (\<lambda>c. p @ [c]) (map fst es))"
    using d by (simp only: distinct_map) (simp add: inj_on_def)
  then have a: "distinct (map (\<lambda>e. p @ [fst e]) es)" by (simp only: m)
  have b: "distinct (concat (map (\<lambda>e. walk (snd e) (p @ [fst e])) es))"
    by (rule walks_distinct [OF d]) (rule "2.IH", assumption, rule w)
  have "x \<notin> set (concat (map (\<lambda>e. walk (snd e) (p @ [fst e])) es))"
    if x: "x \<in> set (map (\<lambda>e. p @ [fst e]) es)" for x
  proof
    assume "x \<in> set (concat (map (\<lambda>e. walk (snd e) (p @ [fst e])) es))"
    then obtain e' where e': "e' \<in> set es" "x \<in> set (walk (snd e') (p @ [fst e']))" by auto
    from walk_prefix [OF e'(2)] obtain q where q: "x = (p @ [fst e']) @ q" "q \<noteq> []" by blast
    from x obtain e where "x = p @ [fst e]" by auto
    with q show False by simp
  qed
  then have "set (map (\<lambda>e. p @ [fst e]) es) \<inter>
             set (concat (map (\<lambda>e. walk (snd e) (p @ [fst e])) es)) = {}"
    by blast
  with a b show ?case by (simp only: walk.simps distinct_append)
qed

lemma rglob_distinct: "wf_tree t \<Longrightarrow> distinct (rglob t p)"
  unfolding rglob_def by (cases "lookup t p") (simp_all add: walk_distinct wf_lookup)

lemma is_file_opened:
  assumes "write_file sl t0 out b = Some t"
  shows "is_file t p = (is_file t0 p \<or> p = out)"
proof (cases "p = out")
  case True
  then show ?thesis using is_file_write_file_out [OF assms] by simp
next
  case False
  have "is_file t0 p" if "is_file t p"
    using file_kept_by_write_file [OF assms False that] that by (simp add: is_file_def)
  moreover have "is_file t p" if "is_file t0 p"
    by (rule is_file_write_file [OF assms that])
  ultimately show ?thesis using False by blast
qed

lemma compress_opened:
  assumes "fst (compress E source out fmt w) = Inr r" and "format_codec fmt = Some k"
  shows "write_file (slot E) (fs w) out (flushed E k []) = Some (opened E k (fs w) out)"
proof -
  let ?w1 = "update_progress E (''Starting compression to '' @ upper fmt @ ''...'') (reset_stats w)"
  have n: "fst (write_archive E k source out ?w1) = None"
    by (rule compress_ok_writer(1) [OF assms])
  from write_archive_ok(1) [OF n] show ?thesis by simp
qed




subsection \<open>Errors\<close>

lemma raisers_returned:
  assumes "list_all (\<lambda>x. snd x = Returned) pre"
  shows "raisers (pre @ post) = raisers post"
proof -
  have "filter (\<lambda>x. snd x = Raised) pre = []"
    using assms by (induction pre) auto
  then show ?thesis by (simp add: raisers_def)
qed

lemma after_raise_returned:
  assumes "list_all (\<lambda>x. snd x = Returned) pre"
  shows "after_raise (pre @ (c, Raised) # post) = post"
proof -
  have "\<And>x. x \<in> set pre \<Longrightarrow> snd x = Returned" using assms by (simp add: list_all_iff)
  then have "dropWhile (\<lambda>x. snd x = Returned) (pre @ (c, Raised) # post) =
               dropWhile (\<lambda>x. snd x = Returned) ((c, Raised) # post)"
    by (rule dropWhile_append2)
  then show ?thesis by (simp add: after_raise_def)
qed

lemma write_archive_stops:
  assumes "fst (write_archive E k source out w) = Some (ArchiveError c)"
  shows "raisers (drop (length (calls w)) (calls (snd (write_archive E k source out w)))) \<noteq> []
       \<and> last (raisers (drop (length (calls w)) (calls (snd (write_archive E k source out w))))) = c
       \<and> after_raise (drop (length (calls w)) (calls (snd (write_archive E k source out w))))
           \<in> {[], [(CloseWrite, Returned)], [(CloseWrite, Raised)]}"
proof -
  from write_archive_error [OF assms] obtain c' pre post where
    e: "ArchiveError c = ArchiveError c'" and
    s: "calls (snd (write_archive E k source out w)) = calls w @ pre @ post" and
    p: "list_all (\<lambda>x. snd x = Returned) pre" and
    q: "post = [(c', Raised)] \<or> post = [(c', Raised), (CloseWrite, Returned)]
        \<or> c' = CloseWrite \<and> (\<exists>c0. post = [(c0, Raised), (CloseWrite, Raised)])"
    by blast
  from e have c: "c' = c" by simp
  have n: "drop (length (calls w)) (calls (snd (write_archive E k source out w))) = pre @ post"
    unfolding s by simp
  from q consider (a) "post = [(c, Raised)]" | (b) "post = [(c, Raised), (CloseWrite, Returned)]"
    | (d) c0 where "c = CloseWrite" "post = [(c0, Raised), (CloseWrite, Raised)]"
    unfolding c by blast
  then show ?thesis
  proof cases
    case a
    have "raisers (pre @ post) = [c]" unfolding raisers_returned [OF p] a by (simp add: raisers_def)
    moreover have "after_raise (pre @ post) = []" unfolding a by (rule after_raise_returned [OF p])
    ultimately show ?thesis unfolding n by simp
  next
    case b
    have "raisers (pre @ post) = [c]" unfolding raisers_returned [OF p] b by (simp add: raisers_def)
    moreover have "after_raise (pre @ post) = [(CloseWrite, Returned)]"
      unfolding b by (rule after_raise_returned [OF p])
    ultimately show ?thesis unfolding n by simp
  next
    case d
    have "raisers (pre @ post) = [c0, c]"
      unfolding raisers_returned [OF p] d by (simp add: raisers_def)
    moreover have "after_raise (pre @ post) = [(CloseWrite, Raised)]"
      unfolding d(2) by (rule after_raise_returned [OF p])
    ultimately show ?thesis unfolding n by simp
  qed
qed

lemma compress_dispatch_stops:
  assumes "fst (compress_dispatch E source out fmt w) = Some (ArchiveError c)"
  shows "raisers (drop (length (calls w)) (calls (snd (compress_dispatch E source out fmt w)))) \<noteq> []
       \<and> last (raisers (drop (length (calls w)) (calls (snd (compress_dispatch E source out fmt w))))) = c
       \<and> after_raise (drop (length (calls w)) (calls (snd (compress_dispatch E source out fmt w))))
           \<in> {[], [(CloseWrite, Returned)], [(CloseWrite, Raised)]}"
proof (cases "format_codec fmt")
  case None
  with assms show ?thesis by (simp add: dispatch_no_codec)
next
  case (Some k)
  show ?thesis
  proof (cases "k = SevenZipFile \<and> \<not> HAS_7Z E")
    case True
    with assms Some show ?thesis by (simp add: dispatch_no_7z)
  next
    case False
    then have d: "compress_dispatch E source out fmt w = write_archive E k source out w"
      using Some by (simp add: dispatch_codec)
    with assms have "fst (write_archive E k source out w) = Some (ArchiveError c)" by simp
    from write_archive_stops [OF this] show ?thesis unfolding d .
  qed
qed

lemma compress_stops:
  assumes "fst (compress E source out fmt w) = Inl (ArchiveError c)"
  shows "raisers (drop (length (calls w)) (calls (snd (compress E source out fmt w)))) \<noteq> []
       \<and> last (raisers (drop (length (calls w)) (calls (snd (compress E source out fmt w))))) = c
       \<and> after_raise (drop (length (calls w)) (calls (snd (compress E source out fmt w))))
           \<in> {[], [(CloseWrite, Returned)], [(CloseWrite, Raised)]}"
proof (cases "exists (fs w) source")
  case False
  with assms show ?thesis by (simp add: compress_def Let_def)
next
  case True
  let ?w1 = "update_progress E (''Starting compression to '' @ upper fmt @ ''...'') (reset_stats w)"
  obtain a b where d: "compress_dispatch E source out fmt ?w1 = (a, b)"
    by (cases "compress_dispatch E source out fmt ?w1")
  show ?thesis
  proof (cases a)
    case None
    with assms True d have "fst (compress_stats out b) = Inl (ArchiveError c)"
      by (simp add: compress_def Let_def)
    from compress_stats_error [OF this] show ?thesis by simp
  next
    case (Some e')
    with assms True d have "e' = ArchiveError c" by (simp add: compress_def Let_def)
    with Some d have "fst (compress_dispatch E source out fmt ?w1) = Some (ArchiveError c)" by simp
    from compress_dispatch_stops [OF this] show ?thesis
      unfolding compress_world [OF True] by simp
  qed
qed

lemma open_read_error:
  "fst (open_read E k archive w) = Inl e \<Longrightarrow>
   e = ArchiveError (OpenRead k archive)
   \<and> calls (snd (open_read E k archive w)) = calls w @ [(OpenRead k archive, Raised)]"
  by (auto simp add: open_read_def raised_def split: option.splits node.splits)

lemma open_read_ok:
  "open_read E k archive w = (Inr bm, w1) \<Longrightarrow>
   calls w1 = calls w @ [(OpenRead k archive, Returned)]"
  by (auto simp add: open_read_def call_def raised_def split: option.splits node.splits)

lemma progress_calls [simp]: "calls (update_progress E m w) = calls w"
  by (simp add: update_progress_def)

lemma extract_each_error:
  "fst (extract_each E k b out ms w) = Some e \<Longrightarrow>
   \<exists>c pre. e = ArchiveError c
     \<and> calls (snd (extract_each E k b out ms w)) = calls w @ pre @ [(c, Raised)]
     \<and> list_all (\<lambda>x. snd x = Returned) pre"
proof (induction ms arbitrary: w)
  case Nil
  then show ?case by simp
next
  case (Cons m ms)
  let ?w1 = "update_progress E (''Extracting: '' @ m) w"
  show ?case
  proof (cases "extract_member E k b m out (fs ?w1)")
    case None
    then have r: "extract_each E k b out (m # ms) w =
                    (Some (ArchiveError (Extract m out)), raised (Extract m out) ?w1)"
      by (simp add: Let_def)
    have "e = ArchiveError (Extract m out)" using Cons.prems unfolding r by simp
    moreover have "calls (snd (extract_each E k b out (m # ms) w)) =
                     calls w @ [] @ [(Extract m out, Raised)]"
      unfolding r by simp
    moreover have "list_all (\<lambda>x. snd x = Returned) ([] :: (lib_call \<times> outcome) list)" by simp
    ultimately show ?thesis by blast
  next
    case (Some t)
    let ?w2 = "call (Extract m out) (?w1\<lparr>fs := t\<rparr>)"
    from Some have r: "extract_each E k b out (m # ms) w = extract_each E k b out ms ?w2"
      by (simp add: Let_def)
    from Cons.prems have "fst (extract_each E k b out ms ?w2) = Some e" unfolding r .
    from Cons.IH [OF this] obtain c pre where
      e: "e = ArchiveError c" and
      s: "calls (snd (extract_each E k b out ms ?w2)) = calls ?w2 @ pre @ [(c, Raised)]" and
      p: "list_all (\<lambda>x. snd x = Returned) pre"
      by blast
    have "calls (snd (extract_each E k b out (m # ms) w)) =
            calls w @ ((Extract m out, Returned) # pre) @ [(c, Raised)]"
      unfolding r s by simp
    moreover have "list_all (\<lambda>x. snd x = Returned) ((Extract m out, Returned) # pre)"
      using p by simp
    ultimately show ?thesis using e by blast
  qed
qed

lemma decompress_with_error:
  assumes "fst (decompress_with E k archive out w) = Some e"
  shows "\<exists>c pre post. e = ArchiveError c
     \<and> calls (snd (decompress_with E k archive out w)) = calls w @ pre @ (c, Raised) # post
     \<and> list_all (\<lambda>x. snd x = Returned) pre
     \<and> (post = [] \<or> post = [(CloseRead, Returned)])"
proof (cases "open_read E k archive w")
  case (Pair a w1)
  show ?thesis
  proof (cases a)
    case (Inl e')
    with Pair have r: "decompress_with E k archive out w = (Some e', w1)"
      by (simp add: decompress_with_def)
    with assms have "e' = e" by simp
    with Inl Pair have o: "fst (open_read E k archive w) = Inl e" by simp
    from open_read_error [OF o] Pair have
      "e = ArchiveError (OpenRead k archive)"
      "calls w1 = calls w @ [] @ (OpenRead k archive, Raised) # []"
      by simp_all
    moreover have "list_all (\<lambda>x. snd x = Returned) ([] :: (lib_call \<times> outcome) list)" by simp
    ultimately show ?thesis unfolding r by (simp only: snd_conv) blast
  next
    case (Inr bm)
    obtain b ms where bm: "bm = (b, ms)" by (cases bm)
    let ?w2 = "w1\<lparr>stats_files := length ms\<rparr>"
    from Inr Pair bm have r: "decompress_with E k archive out w =
        (fst (extract_each E k b out ms ?w2), call CloseRead (snd (extract_each E k b out ms ?w2)))"
      by (simp add: decompress_with_def Let_def)
    from Pair Inr have c1: "calls w1 = calls w @ [(OpenRead k archive, Returned)]"
      by (intro open_read_ok) simp
    from assms have "fst (extract_each E k b out ms ?w2) = Some e" unfolding r by simp
    from extract_each_error [OF this] obtain c pre where
      e: "e = ArchiveError c" and
      s: "calls (snd (extract_each E k b out ms ?w2)) = calls ?w2 @ pre @ [(c, Raised)]" and
      p: "list_all (\<lambda>x. snd x = Returned) pre"
      by blast
    have "calls (snd (decompress_with E k archive out w)) =
            calls w @ ((OpenRead k archive, Returned) # pre) @ (c, Raised) # [(CloseRead, Returned)]"
      unfolding r using s c1 by simp
    moreover have "list_all (\<lambda>x. snd x = Returned) ((OpenRead k archive, Returned) # pre)"
      using p by simp
    ultimately show ?thesis using e by blast
  qed
qed

lemma decompress_7z_error:
  assumes "fst (decompress_7z E archive out w) = Some e"
  shows "(\<exists>c pre post. e = ArchiveError c
            \<and> calls (snd (decompress_7z E archive out w)) = calls w @ pre @ (c, Raised) # post
            \<and> list_all (\<lambda>x. snd x = Returned) pre
            \<and> (post = [] \<or> post = [(CloseRead, Returned)]))
       \<or> e = ImportError ''py7zr not installed. Install with: pip install py7zr'' \<and> \<not> HAS_7Z E"
proof (cases "HAS_7Z E")
  case False
  with assms show ?thesis by (simp add: decompress_7z_def)
next
  case True
  show ?thesis
  proof (cases "open_read E SevenZipFile archive w")
    case (Pair a w1)
    show ?thesis
    proof (cases a)
      case (Inl e')
      with Pair True have r: "decompress_7z E archive out w = (Some e', w1)"
        by (simp add: decompress_7z_def)
      with assms have "e' = e" by simp
      with Inl Pair have o: "fst (open_read E SevenZipFile archive w) = Inl e" by simp
      from open_read_error [OF o] Pair have
        "e = ArchiveError (OpenRead SevenZipFile archive)"
        "calls w1 = calls w @ [] @ (OpenRead SevenZipFile archive, Raised) # []"
        by simp_all
      moreover have "list_all (\<lambda>x. snd x = Returned) ([] :: (lib_call \<times> outcome) list)" by simp
      ultimately show ?thesis unfolding r by (simp only: snd_conv) blast
    next
      case (Inr bm)
      obtain b ms where bm: "bm = (b, ms)" by (cases bm)
      let ?w2 = "w1\<lparr>stats_files := length ms\<rparr>"
      from Pair Inr have c1: "calls w1 = calls w @ [(OpenRead SevenZipFile archive, Returned)]"
        by (intro open_read_ok) simp
      show ?thesis
      proof (cases "extractall E SevenZipFile b out ms (fs ?w2)")
        case None
        with Inr Pair bm True have r: "decompress_7z E archive out w =
            (Some (ArchiveError (ExtractAll out)), call CloseRead (raised (ExtractAll out) ?w2))"
          by (simp add: decompress_7z_def Let_def)
        have "e = ArchiveError (ExtractAll out)" using assms unfolding r by simp
        moreover have "calls (snd (decompress_7z E archive out w)) =
            calls w @ [(OpenRead SevenZipFile archive, Returned)] @
              (ExtractAll out, Raised) # [(CloseRead, Returned)]"
          unfolding r using c1 by simp
        moreover have "list_all (\<lambda>x. snd x = Returned) [(OpenRead SevenZipFile archive, Returned)]"
          by simp
        ultimately show ?thesis by blast
      next
        case (Some t)
        with Inr Pair bm True assms show ?thesis
          by (simp add: decompress_7z_def Let_def)
      qed
    qed
  qed
qed

lemma library_error: "e = ArchiveError c \<Longrightarrow> from_library e"
  by simp

lemma decompress_dispatch_trace:
  assumes "fst (decompress_dispatch E archive out ext w) = Some (ArchiveError c)"
  shows "\<exists>pre post. calls (snd (decompress_dispatch E archive out ext w)) =
                      calls w @ pre @ (c, Raised) # post
           \<and> list_all (\<lambda>x. snd x = Returned) pre
           \<and> (post = [] \<or> post = [(CloseRead, Returned)])"
proof -
  consider (zip) "ext = ''.zip''" | (rar) "ext = ''.rar''" | (sz) "ext = ''.7z''"
    | (tar) "ext \<in> set [''.tar.gz'', ''.tgz'', ''.tar.bz2'', ''.tar.xz'', ''.tar'']"
    | (other) "ext \<noteq> ''.zip''" "ext \<noteq> ''.rar''" "ext \<noteq> ''.7z''"
        "ext \<notin> set [''.tar.gz'', ''.tgz'', ''.tar.bz2'', ''.tar.xz'', ''.tar'']"
    by blast
  then show ?thesis
  proof cases
    case zip
    then have d: "decompress_dispatch E archive out ext w = decompress_with E ZipFile archive out w"
      by (simp add: decompress_dispatch_def decompress_zip_def)
    from assms have "fst (decompress_with E ZipFile archive out w) = Some (ArchiveError c)"
      unfolding d .
    from decompress_with_error [OF this] show ?thesis unfolding d by auto
  next
    case rar
    show ?thesis
    proof (cases "HAS_RAR E")
      case True
      with rar have d: "decompress_dispatch E archive out ext w = decompress_with E RarFile archive out w"
        by (simp add: decompress_dispatch_def decompress_rar_def)
      from assms have "fst (decompress_with E RarFile archive out w) = Some (ArchiveError c)"
        unfolding d .
      from decompress_with_error [OF this] show ?thesis unfolding d by auto
    next
      case False
      with assms rar show ?thesis by (simp add: decompress_dispatch_def decompress_rar_def)
    qed
  next
    case sz
    then have d: "decompress_dispatch E archive out ext w = decompress_7z E archive out w"
      by (simp add: decompress_dispatch_def)
    from assms have "fst (decompress_7z E archive out w) = Some (ArchiveError c)" unfolding d .
    from decompress_7z_error [OF this] show ?thesis unfolding d by auto
  next
    case tar
    then have d: "decompress_dispatch E archive out ext w =
                    decompress_with E (TarFile ''r:*'') archive out w"
      by (auto simp add: decompress_dispatch_def decompress_tar_def)
    from assms have "fst (decompress_with E (TarFile ''r:*'') archive out w) = Some (ArchiveError c)"
      unfolding d .
    from decompress_with_error [OF this] show ?thesis unfolding d by auto
  next
    case other
    with assms show ?thesis by (simp add: decompress_dispatch_def)
  qed
qed

lemma decompress_dispatch_error:
  assumes "fst (decompress_dispatch E archive out ext w) = Some e"
  shows "from_library e
       \<or> e = ValueError (''Unsupported archive format: '' @ ext) \<and> ext_codec ext = None
       \<or> e = ImportError ''py7zr not installed. Install with: pip install py7zr''
           \<and> ext = ''.7z'' \<and> \<not> HAS_7Z E
       \<or> e = ImportError ''rarfile not installed. Install with: pip install rarfile''
           \<and> ext = ''.rar'' \<and> \<not> HAS_RAR E"
proof -
  consider (zip) "ext = ''.zip''" | (rar) "ext = ''.rar''" | (sz) "ext = ''.7z''"
    | (tar) "ext \<in> set [''.tar.gz'', ''.tgz'', ''.tar.bz2'', ''.tar.xz'', ''.tar'']"
    | (other) "ext \<noteq> ''.zip''" "ext \<noteq> ''.rar''" "ext \<noteq> ''.7z''"
        "ext \<notin> set [''.tar.gz'', ''.tgz'', ''.tar.bz2'', ''.tar.xz'', ''.tar'']"
    by blast
  then show ?thesis
  proof cases
    case zip
    with assms have "fst (decompress_with E ZipFile archive out w) = Some e"
      by (simp add: decompress_dispatch_def decompress_zip_def)
    from decompress_with_error [OF this] show ?thesis by auto
  next
    case rar
    show ?thesis
    proof (cases "HAS_RAR E")
      case True
      with assms rar have "fst (decompress_with E RarFile archive out w) = Some e"
        by (simp add: decompress_dispatch_def decompress_rar_def)
      from decompress_with_error [OF this] show ?thesis by auto
    next
      case False
      with assms rar show ?thesis by (simp add: decompress_dispatch_def decompress_rar_def)
    qed
  next
    case sz
    with assms have "fst (decompress_7z E archive out w) = Some e"
      by (simp add: decompress_dispatch_def)
    from decompress_7z_error [OF this] sz show ?thesis by auto
  next
    case tar
    then have "fst (decompress_with E (TarFile ''r:*'') archive out w) = Some e"
      using assms by (auto simp add: decompress_dispatch_def decompress_tar_def)
    from decompress_with_error [OF this] show ?thesis by auto
  next
    case other
    then have "ext_codec ext = None" by (simp add: ext_codec_def)
    moreover from other assms have "e = ValueError (''Unsupported archive format: '' @ ext)"
      by (simp add: decompress_dispatch_def)
    ultimately show ?thesis by simp
  qed
qed

lemma decompress_errors:
  assumes "fst (decompress E archive output_dir w) = Inl e"
  shows "from_library e
       \<or> e = FileNotFoundError (''Archive not found: '' @ str_path archive)
           \<and> \<not> exists (fs w) archive
       \<or> e = ValueError (''Unsupported archive format: '' @ archive_ext archive)
           \<and> ext_codec (archive_ext archive) = None
       \<or> e = ImportError ''py7zr not installed. Install with: pip install py7zr''
           \<and> archive_ext archive = ''.7z'' \<and> \<not> HAS_7Z E
       \<or> e = ImportError ''rarfile not installed. Install with: pip install rarfile''
           \<and> archive_ext archive = ''.rar'' \<and> \<not> HAS_RAR E"
proof (cases "exists (fs w) archive")
  case False
  with assms show ?thesis by (simp add: decompress_def Let_def)
next
  case True
  let ?out = "case output_dir of None \<Rightarrow> Path_of_name (stem archive) | Some d \<Rightarrow> d"
  show ?thesis
  proof (cases "mkdir_p (fs w) ?out")
    case None
    with assms True have "e = OSError ?out" by (simp add: decompress_def Let_def)
    then show ?thesis by simp
  next
    case (Some t)
    let ?w1 = "update_progress E ''Starting extraction...'' (reset_stats w\<lparr>fs := t\<rparr>)"
    obtain a b where d: "decompress_dispatch E archive ?out (archive_ext archive) ?w1 = (a, b)"
      by (cases "decompress_dispatch E archive ?out (archive_ext archive) ?w1")
    show ?thesis
    proof (cases a)
      case None
      with assms True Some d show ?thesis by (simp add: decompress_def Let_def)
    next
      case (Some e')
      with assms True \<open>mkdir_p (fs w) ?out = Some t\<close> d have "e' = e"
        by (simp add: decompress_def Let_def)
      with Some d have "fst (decompress_dispatch E archive ?out (archive_ext archive) ?w1) = Some e"
        by simp
      from decompress_dispatch_error [OF this] show ?thesis by blast
    qed
  qed
qed

lemma decompress_stops:
  assumes "fst (decompress E archive output_dir w) = Inl (ArchiveError c)"
  shows "raisers (drop (length (calls w)) (calls (snd (decompress E archive output_dir w)))) = [c]
       \<and> after_raise (drop (length (calls w)) (calls (snd (decompress E archive output_dir w))))
           \<in> {[], [(CloseRead, Returned)]}"
proof (cases "exists (fs w) archive")
  case False
  with assms show ?thesis by (simp add: decompress_def Let_def)
next
  case True
  let ?out = "case output_dir of None \<Rightarrow> Path_of_name (stem archive) | Some d \<Rightarrow> d"
  show ?thesis
  proof (cases "mkdir_p (fs w) ?out")
    case None
    with assms True show ?thesis by (simp add: decompress_def Let_def)
  next
    case (Some t)
    let ?w1 = "update_progress E ''Starting extraction...'' (reset_stats w\<lparr>fs := t\<rparr>)"
    have cw: "calls ?w1 = calls w" by (simp add: reset_stats_def)
    obtain a b where d: "decompress_dispatch E archive ?out (archive_ext archive) ?w1 = (a, b)"
      by (cases "decompress_dispatch E archive ?out (archive_ext archive) ?w1")
    show ?thesis
    proof (cases a)
      case None
      with assms True Some d show ?thesis by (simp add: decompress_def Let_def)
    next
      case (Some e')
      with assms True \<open>mkdir_p (fs w) ?out = Some t\<close> d have e: "e' = ArchiveError c"
        and s: "snd (decompress E archive output_dir w) = b"
        by (simp_all add: decompress_def Let_def)
      from e Some d
      have "fst (decompress_dispatch E archive ?out (archive_ext archive) ?w1) = Some (ArchiveError c)"
        by simp
      from decompress_dispatch_trace [OF this] d obtain pre post where
        c: "calls b = calls ?w1 @ pre @ (c, Raised) # post" and
        p: "list_all (\<lambda>x. snd x = Returned) pre" and
        q: "post = [] \<or> post = [(CloseRead, Returned)]"
        by auto
      have n: "drop (length (calls w)) (calls b) = pre @ (c, Raised) # post"
        unfolding c cw by simp
      have "raisers (pre @ (c, Raised) # post) = [c]"
        unfolding raisers_returned [OF p] using q by (auto simp add: raisers_def)
      moreover have "after_raise (pre @ (c, Raised) # post) = post"
        by (rule after_raise_returned [OF p])
      ultimately show ?thesis unfolding s n using q by auto
    qed
  qed
qed




subsection \<open>Extension dispatch\<close>

text \<open>
  C2. \<open>decompress\<close> compares the joined suffixes of the name, not its ending, with the
  table of extensions: the ZIP file \<^verbatim>\<open>backup.2024.zip\<close> has the suffixes \<^verbatim>\<open>.2024\<close> and
  \<^verbatim>\<open>.zip\<close>, so it is rejected with \<^verbatim>\<open>ValueError\<close> and the ZIP codec is never called.
\<close>

theorem dotted_zip_name_is_rejected:
  "is_file (fs demo_world) [''backup.2024.zip'']
   \<and> suffixes [''backup.2024.zip''] = [''.2024'', ''.zip'']
   \<and> fst (decompress demo_env [''backup.2024.zip''] None demo_world) =
       Inl (ValueError ''Unsupported archive format: .2024.zip'')
   \<and> calls (snd (decompress demo_env [''backup.2024.zip''] None demo_world)) = []"
  by code_simp

subsection \<open>The output directory\<close>

lemma set_entry_same: "map_of es c = Some n \<Longrightarrow> set_entry c n es = es"
  by (induction es) (auto split: if_splits)

lemma map_of_snoc_new: "map_of es c = None \<Longrightarrow> map_of (es @ [(c, n)]) c = Some n"
  by (induction es) (auto split: if_splits)

lemma mkdir_p_is_dir: "mkdir_p t0 p = Some t \<Longrightarrow> is_dir t p"
proof (induction t0 p arbitrary: t rule: mkdir_p.induct)
  case (1 es)
  then show ?case by (auto simp add: is_dir_def)
next
  case (2 b p)
  then show ?case by simp
next
  case (3 es c cs)
  show ?case
  proof (cases "map_of es c")
    case None
    with "3.prems" obtain n where n: "mkdir_p (Dir []) cs = Some n" and t: "t = Dir (es @ [(c, n)])"
      by (auto split: option.splits)
    from "3.IH"(1) [OF None n] have "is_dir n cs" .
    moreover have "lookup t (c # cs) = lookup n cs"
      using map_of_snoc_new [OF None, of n] by (simp add: t del: map_of_append)
    ultimately show ?thesis by (simp add: is_dir_def)
  next
    case (Some m)
    with "3.prems" obtain n where n: "mkdir_p m cs = Some n" and t: "t = Dir (set_entry c n es)"
      by (auto split: option.splits)
    from "3.IH"(2) [OF Some n] have "is_dir n cs" .
    then show ?thesis by (simp add: t is_dir_def map_of_set_entry)
  qed
qed

lemma mkdir_p_existing: "is_dir t0 p \<Longrightarrow> mkdir_p t0 p = Some t0"
proof (induction t0 p rule: mkdir_p.induct)
  case (1 es)
  then show ?case by simp
next
  case (2 b p)
  then show ?case by (cases p) (simp_all add: is_dir_def)
next
  case (3 es c cs)
  from "3.prems" obtain m where m: "map_of es c = Some m" and d: "is_dir m cs"
    by (auto simp add: is_dir_def split: option.splits)
  from "3.IH"(2) [OF m d] have "mkdir_p m cs = Some m" .
  with m show ?case by (simp add: set_entry_same)
qed

lemma decompress_unsupported:
  assumes "exists (fs w) archive" and "ext_codec (archive_ext archive) = None"
    and "mkdir_p (fs w) (case output_dir of None \<Rightarrow> Path_of_name (stem archive) | Some d \<Rightarrow> d) = Some t"
  shows "decompress E archive output_dir w =
           (Inl (ValueError (''Unsupported archive format: '' @ archive_ext archive)),
            update_progress E ''Starting extraction...'' (reset_stats w\<lparr>fs := t\<rparr>))"
proof -
  from assms(2) have "archive_ext archive \<noteq> ''.zip''" "archive_ext archive \<noteq> ''.rar''"
    "archive_ext archive \<noteq> ''.7z''"
    "archive_ext archive \<notin> set [''.tar.gz'', ''.tgz'', ''.tar.bz2'', ''.tar.xz'', ''.tar'']"
    by (auto simp add: ext_codec_def split: if_splits)
  then have "decompress_dispatch E archive out (archive_ext archive) w' =
               (Some (ValueError (''Unsupported archive format: '' @ archive_ext archive)), w')"
    for out w'
    by (simp add: decompress_dispatch_def)
  with assms(1,3) show ?thesis by (simp add: decompress_def Let_def)
qed

text \<open>
  C9, as the code has it. For an existing archive whose extension is outside the table,
  \<open>decompress\<close> raises \<^verbatim>\<open>ValueError\<close> only after \<^verbatim>\<open>mkdir(parents=True, exist_ok=True)\<close>
  on the output directory (by default the stem of the archive's name, in the working
  directory) has succeeded: the directory is there afterwards, and the file tree is left
  unchanged exactly when the directory was there before. The run on \<^verbatim>\<open>notes.txt\<close> below,
  beside an existing directory \<^verbatim>\<open>notes\<close>, fails and changes nothing.
\<close>

theorem unsupported_extension_after_mkdir:
  assumes "exists (fs w) archive" and "ext_codec (archive_ext archive) = None"
    and "out = (case output_dir of None \<Rightarrow> Path_of_name (stem archive) | Some d \<Rightarrow> d)"
    and "mkdir_p (fs w) out = Some t"
  shows "fst (decompress E archive output_dir w) =
           Inl (ValueError (''Unsupported archive format: '' @ archive_ext archive))
       \<and> fs (snd (decompress E archive output_dir w)) = t
       \<and> is_dir t out
       \<and> (t = fs w) = is_dir (fs w) out"
proof -
  from assms(3,4) have m: "mkdir_p (fs w)
      (case output_dir of None \<Rightarrow> Path_of_name (stem archive) | Some d \<Rightarrow> d) = Some t"
    by simp
  have d: "is_dir t out" using assms(4) by (rule mkdir_p_is_dir)
  have "(t = fs w) = is_dir (fs w) out"
  proof
    assume "t = fs w"
    with d show "is_dir (fs w) out" by simp
  next
    assume "is_dir (fs w) out"
    from mkdir_p_existing [OF this] assms(4) show "t = fs w" by simp
  qed
  with d show ?thesis
    unfolding decompress_unsupported [OF assms(1,2) m]
    by (simp add: update_progress_def reset_stats_def)
qed

theorem unsupported_extension_after_mkdir_witness:
  "exists (fs demo_world) [''f.bin''] \<and> ext_codec (archive_ext [''f.bin'']) = None
   \<and> [''f''] = (case None of None \<Rightarrow> Path_of_name (stem [''f.bin'']) | Some d \<Rightarrow> d)
   \<and> \<not> exists (fs demo_world) [''f'']
   \<and> fst (decompress demo_env [''f.bin''] None demo_world) =
       Inl (ValueError ''Unsupported archive format: .bin'')
   \<and> is_dir (fs (snd (decompress demo_env [''f.bin''] None demo_world))) [''f'']"
proof -
  have h1: "exists (fs demo_world) [''f.bin'']" by code_simp
  have h2: "ext_codec (archive_ext [''f.bin'']) = None" by code_simp
  have h3: "[''f''] = (case None of None \<Rightarrow> Path_of_name (stem [''f.bin'']) | Some d \<Rightarrow> d)"
    by code_simp
  have h4: "mkdir_p (fs demo_world) [''f''] =
              Some (fs (snd (decompress demo_env [''f.bin''] None demo_world)))"
    by code_simp
  have e: "archive_ext [''f.bin''] = ''.bin''" by code_simp
  have n: "\<not> exists (fs demo_world) [''f'']" by code_simp
  from unsupported_extension_after_mkdir [OF h1 h2 h3 h4, of demo_env] h1 h2 h3 n
  show ?thesis by (simp add: e)
qed

theorem existing_output_directory_is_untouched:
  "is_file (fs demo_world) [''notes.txt'']
   \<and> fst (decompress demo_env [''notes.txt''] None demo_world) =
       Inl (ValueError ''Unsupported archive format: .txt'')
   \<and> fs (snd (decompress demo_env [''notes.txt''] None demo_world)) = fs demo_world"
  by code_simp

subsection \<open>Independence from earlier runs\<close>

lemma same_state_refl [simp]: "same_state w w"
  by (simp add: same_state_def)

lemma same_reset: "fs w = fs w' \<Longrightarrow> same_state (reset_stats w) (reset_stats w')"
  by (simp add: same_state_def reset_stats_def)

lemma same_update_progress:
  "same_state w w' \<Longrightarrow> same_state (update_progress E m w) (update_progress E m w')"
  by (simp add: same_state_def update_progress_def)

lemma same_call: "same_state w w' \<Longrightarrow> same_state (call c w) (call c w')"
  by (simp add: same_state_def call_def)

lemma same_fs_update: "same_state w w' \<Longrightarrow> same_state (w\<lparr>fs := t\<rparr>) (w'\<lparr>fs := t\<rparr>)"
  by (simp add: same_state_def)

lemma same_files_update:
  "same_state w w' \<Longrightarrow> same_state (w\<lparr>stats_files := n\<rparr>) (w'\<lparr>stats_files := n\<rparr>)"
  by (simp add: same_state_def)

lemma same_raised: "same_state w w' \<Longrightarrow> same_state (raised c w) (raised c w')"
  by (simp add: same_state_def raised_def)

lemma same_lib_add_None:
  assumes "same_state w w'" and "held w = held w'"
  shows "(lib_add E k out p a w = None) = (lib_add E k out p a w' = None)"
  using assms by (simp add: lib_add_def same_state_def Let_def)

lemma same_lib_add_Some:
  assumes "same_state w w'" and "held w = held w'"
    and "lib_add E k out p a w = Some x" and "lib_add E k out p a w' = Some y"
  shows "same_state x y \<and> held x = held y"
  using assms by (auto simp add: lib_add_def same_state_def Let_def split: if_splits)

lemma same_count_added:
  assumes "same_state w w'" and "held w = held w'"
  shows "same_state (count_added E p a (call c w)) (count_added E p a (call c w'))
       \<and> held (count_added E p a (call c w)) = held (count_added E p a (call c w'))"
  using assms by (simp add: same_state_def count_added_def Let_def update_progress_def call_def)

lemma same_add_files:
  "same_state w w' \<Longrightarrow> held w = held w' \<Longrightarrow>
   fst (add_files E k s out ps w) = fst (add_files E k s out ps w')
   \<and> same_state (snd (add_files E k s out ps w)) (snd (add_files E k s out ps w'))
   \<and> held (snd (add_files E k s out ps w)) = held (snd (add_files E k s out ps w'))"
proof (induction ps arbitrary: w w')
  case Nil
  then show ?case by simp
next
  case (Cons fp ps)
  let ?a = "relative_to fp (parent s)"
  have f: "fs w' = fs w" using Cons.prems(1) by (simp add: same_state_def)
  show ?case
  proof (cases "is_file (fs w) fp")
    case False
    then have "\<not> is_file (fs w') fp" using f by simp
    then show ?thesis
      unfolding add_files_skip [OF False] add_files_skip [OF \<open>\<not> is_file (fs w') fp\<close>]
      by (intro Cons.IH Cons.prems)
  next
    case True
    then have T': "is_file (fs w') fp" using f by simp
    show ?thesis
    proof (cases "lib_add E k out fp ?a w")
      case None
      then have N': "lib_add E k out fp ?a w' = None"
        using same_lib_add_None [OF Cons.prems] by simp
      show ?thesis
        unfolding add_files_raise [OF True None] add_files_raise [OF T' N']
        using same_raised [OF Cons.prems(1)] Cons.prems(2) by (simp add: raised_def)
    next
      case (Some x)
      then have "lib_add E k out fp ?a w' \<noteq> None"
        using same_lib_add_None [OF Cons.prems, of E k out fp ?a] by simp
      then obtain y where S': "lib_add E k out fp ?a w' = Some y" by blast
      from same_lib_add_Some [OF Cons.prems Some S'] have
        r: "same_state x y" "held x = held y" by simp_all
      from same_count_added [OF r] have
        "same_state (count_added E fp ?a (call (Add fp ?a) x)) (count_added E fp ?a (call (Add fp ?a) y))"
        "held (count_added E fp ?a (call (Add fp ?a) x)) = held (count_added E fp ?a (call (Add fp ?a) y))"
        by simp_all
      then show ?thesis
        unfolding add_files_step [OF True Some] add_files_step [OF T' S']
        by (rule Cons.IH)
    qed
  qed
qed

lemma same_add_source:
  assumes "same_state w w'" and "held w = held w'"
  shows "fst (add_source E k s out w) = fst (add_source E k s out w')
   \<and> same_state (snd (add_source E k s out w)) (snd (add_source E k s out w'))
   \<and> held (snd (add_source E k s out w)) = held (snd (add_source E k s out w'))"
proof (cases "is_file (fs w) s")
  case False
  have f: "fs w' = fs w" using assms(1) by (simp add: same_state_def)
  from False f have "add_source E k s out w = add_files E k s out (rglob (fs w) s) w"
    "add_source E k s out w' = add_files E k s out (rglob (fs w) s) w'"
    by (simp_all add: add_source_def)
  then show ?thesis using same_add_files [OF assms] by simp
next
  case True
  have f: "fs w' = fs w" using assms(1) by (simp add: same_state_def)
  then have T': "is_file (fs w') s" using True by simp
  show ?thesis
  proof (cases "lib_add E k out s [name s] w")
    case None
    then have N': "lib_add E k out s [name s] w' = None"
      using same_lib_add_None [OF assms] by simp
    show ?thesis
      using True T' None N' same_raised [OF assms(1)] assms(2)
      by (simp add: add_source_def raised_def)
  next
    case (Some x)
    then have "lib_add E k out s [name s] w' \<noteq> None"
      using same_lib_add_None [OF assms, of E k out s "[name s]"] by simp
    then obtain y where S': "lib_add E k out s [name s] w' = Some y" by blast
    from same_lib_add_Some [OF assms Some S'] have
      r: "same_state x y" "held x = held y" by simp_all
    then show ?thesis
      using True T' Some S'
      by (simp add: add_source_def Let_def same_state_def update_progress_def call_def)
  qed
qed

lemma write_archive_open_fs:
  assumes "write_file (slot E) (fs w) out (flushed E k []) = Some t"
  shows "fs (snd (write_archive E k source out w)) =
           set_bytes (fs (snd (add_source E k source out (call (OpenWrite k out) (w\<lparr>fs := t, held := []\<rparr>)))))
             out
             (if close_ok E k
                   (fst (add_source E k source out (call (OpenWrite k out) (w\<lparr>fs := t, held := []\<rparr>))) = None)
                   (held (snd (add_source E k source out (call (OpenWrite k out) (w\<lparr>fs := t, held := []\<rparr>)))))
                \<and> fst (add_source E k source out (call (OpenWrite k out) (w\<lparr>fs := t, held := []\<rparr>))) = None
              then encode E k (held (snd (add_source E k source out (call (OpenWrite k out) (w\<lparr>fs := t, held := []\<rparr>)))))
              else aborted E k (held (snd (add_source E k source out (call (OpenWrite k out) (w\<lparr>fs := t, held := []\<rparr>))))))"
  using assms by (simp add: write_archive_def Let_def call_def raised_def split: option.splits)

lemma same_write_archive:
  assumes "same_state w w'"
  shows "fst (write_archive E k source out w) = fst (write_archive E k source out w')
       \<and> same_state (snd (write_archive E k source out w)) (snd (write_archive E k source out w'))"
proof -
  have f: "fs w' = fs w" using assms by (simp add: same_state_def)
  show ?thesis
  proof (cases "write_file (slot E) (fs w) out (flushed E k [])")
    case None
    then have N': "write_file (slot E) (fs w') out (flushed E k []) = None" using f by simp
    show ?thesis
      unfolding write_archive_fail [OF None] write_archive_fail [OF N']
      using same_raised [OF assms] by simp
  next
    case (Some t)
    then have S': "write_file (slot E) (fs w') out (flushed E k []) = Some t" using f by simp
    let ?w1 = "call (OpenWrite k out) (w\<lparr>fs := t, held := []\<rparr>)"
    let ?w1' = "call (OpenWrite k out) (w'\<lparr>fs := t, held := []\<rparr>)"
    let ?a = "add_source E k source out ?w1"
    let ?a' = "add_source E k source out ?w1'"
    have s: "same_state ?w1 ?w1'" using assms by (simp add: same_state_def call_def)
    have h: "held ?w1 = held ?w1'" by (simp add: call_def)
    from same_add_source [OF s h] have
      a: "fst ?a = fst ?a'" and b: "same_state (snd ?a) (snd ?a')" and c: "held (snd ?a) = held (snd ?a')"
      by simp_all
    from b have g: "fs (snd ?a') = fs (snd ?a)" "stats_files (snd ?a') = stats_files (snd ?a)"
      "stats_size (snd ?a') = stats_size (snd ?a)"
      by (simp_all add: same_state_def)
    have 1: "fst (write_archive E k source out w) = fst (write_archive E k source out w')"
      unfolding write_archive_open(1) [OF Some] write_archive_open(1) [OF S']
      by (simp only: a [symmetric] c [symmetric])
    have 2: "fs (snd (write_archive E k source out w)) = fs (snd (write_archive E k source out w'))"
      unfolding write_archive_open_fs [OF Some] write_archive_open_fs [OF S']
      by (simp only: a [symmetric] c [symmetric] g)
    have 3: "stats_files (snd (write_archive E k source out w)) =
             stats_files (snd (write_archive E k source out w'))"
      unfolding write_archive_open(4) [OF Some] write_archive_open(4) [OF S'] by (simp only: g)
    have 4: "stats_size (snd (write_archive E k source out w)) =
             stats_size (snd (write_archive E k source out w'))"
      unfolding write_archive_open(5) [OF Some] write_archive_open(5) [OF S'] by (simp only: g)
    from 1 2 3 4 show ?thesis by (simp add: same_state_def)
  qed
qed

lemma same_compress_dispatch:
  assumes "same_state w w'"
  shows "fst (compress_dispatch E source out fmt w) = fst (compress_dispatch E source out fmt w')
       \<and> same_state (snd (compress_dispatch E source out fmt w))
                     (snd (compress_dispatch E source out fmt w'))"
proof (cases "format_codec fmt")
  case None
  then show ?thesis using assms by (simp add: dispatch_no_codec)
next
  case (Some k)
  show ?thesis
  proof (cases "k = SevenZipFile \<and> \<not> HAS_7Z E")
    case True
    then show ?thesis using Some assms by (simp add: dispatch_no_7z)
  next
    case False
    then show ?thesis using Some same_write_archive [OF assms] by (simp add: dispatch_codec)
  qed
qed

lemma same_compress_stats:
  "same_state w w' \<Longrightarrow>
   fst (compress_stats out w) = fst (compress_stats out w') \<and>
   same_state (snd (compress_stats out w)) (snd (compress_stats out w'))"
  by (simp add: same_state_def compress_stats_def Let_def compression_ratio_total)

lemma same_compress:
  assumes "fs w = fs w'"
  shows "fst (compress E source out fmt w) = fst (compress E source out fmt w')
       \<and> same_state (snd (compress E source out fmt w)) (snd (compress E source out fmt w'))"
proof (cases "exists (fs w) source")
  case False
  then show ?thesis using assms same_reset [OF assms] by (simp add: compress_def Let_def)
next
  case True
  let ?m = "''Starting compression to '' @ upper fmt @ ''...''"
  let ?d = "compress_dispatch E source out fmt (update_progress E ?m (reset_stats w))"
  let ?d' = "compress_dispatch E source out fmt (update_progress E ?m (reset_stats w'))"
  have "same_state (update_progress E ?m (reset_stats w)) (update_progress E ?m (reset_stats w'))"
    by (intro same_update_progress same_reset assms)
  from same_compress_dispatch [OF this] have a: "fst ?d = fst ?d'" and b: "same_state (snd ?d) (snd ?d')"
    by simp_all
  have T': "exists (fs w') source" using True assms by simp
  obtain x y where d: "?d = (x, y)" by (cases ?d)
  obtain x' y' where d': "?d' = (x', y')" by (cases ?d')
  from a b d d' have xy: "x' = x" "same_state y y'" by simp_all
  show ?thesis
  proof (cases x)
    case None
    with True T' d d' xy same_compress_stats [OF xy(2), of out] show ?thesis
      by (simp add: compress_def Let_def)
  next
    case (Some e)
    with True T' d d' xy show ?thesis by (simp add: compress_def Let_def)
  qed
qed

lemma same_open_read:
  assumes "same_state w w'"
  shows "fst (open_read E k archive w) = fst (open_read E k archive w')
       \<and> same_state (snd (open_read E k archive w)) (snd (open_read E k archive w'))"
proof -
  have "fs w = fs w'" using assms by (simp add: same_state_def)
  then show ?thesis
    using same_call [OF assms, of "OpenRead k archive"] same_raised [OF assms, of "OpenRead k archive"]
    by (auto simp add: open_read_def Let_def split: option.splits node.splits)
qed

lemma same_extract_each:
  "same_state w w' \<Longrightarrow>
   fst (extract_each E k b out ms w) = fst (extract_each E k b out ms w') \<and>
   same_state (snd (extract_each E k b out ms w)) (snd (extract_each E k b out ms w'))"
proof (induction ms arbitrary: w w')
  case Nil
  then show ?case by simp
next
  case (Cons m ms)
  let ?w1 = "update_progress E (''Extracting: '' @ m) w"
  let ?w1' = "update_progress E (''Extracting: '' @ m) w'"
  have s: "same_state ?w1 ?w1'" by (intro same_update_progress Cons.prems)
  then have f: "fs ?w1' = fs ?w1" by (simp add: same_state_def)
  show ?case
  proof (cases "extract_member E k b m out (fs ?w1)")
    case None
    then have N': "extract_member E k b m out (fs ?w1') = None" using f by simp
    have r: "extract_each E k b out (m # ms) w =
               (Some (ArchiveError (Extract m out)), raised (Extract m out) ?w1)"
      using None by (simp add: Let_def)
    have r': "extract_each E k b out (m # ms) w' =
               (Some (ArchiveError (Extract m out)), raised (Extract m out) ?w1')"
      using N' by (simp add: Let_def)
    show ?thesis unfolding r r' using same_raised [OF s] by simp
  next
    case (Some t)
    then have S': "extract_member E k b m out (fs ?w1') = Some t" using f by simp
    have r: "extract_each E k b out (m # ms) w =
               extract_each E k b out ms (call (Extract m out) (?w1\<lparr>fs := t\<rparr>))"
      using Some by (simp add: Let_def)
    have r': "extract_each E k b out (m # ms) w' =
               extract_each E k b out ms (call (Extract m out) (?w1'\<lparr>fs := t\<rparr>))"
      using S' by (simp add: Let_def)
    have "same_state (call (Extract m out) (?w1\<lparr>fs := t\<rparr>)) (call (Extract m out) (?w1'\<lparr>fs := t\<rparr>))"
      by (intro same_call same_fs_update s)
    then show ?thesis unfolding r r' by (rule Cons.IH)
  qed
qed

lemma same_report_each:
  "same_state w w' \<Longrightarrow> same_state (report_each E ms w) (report_each E ms w')"
proof (induction ms arbitrary: w w')
  case Nil
  then show ?case by simp
next
  case (Cons m ms)
  from Cons.IH [OF same_update_progress [OF Cons.prems]] show ?case by simp
qed

lemma same_decompress_with:
  assumes "same_state w w'"
  shows "fst (decompress_with E k archive out w) = fst (decompress_with E k archive out w')
       \<and> same_state (snd (decompress_with E k archive out w)) (snd (decompress_with E k archive out w'))"
proof -
  obtain a w1 where o: "open_read E k archive w = (a, w1)" by (cases "open_read E k archive w")
  obtain a' w1' where o': "open_read E k archive w' = (a', w1')" by (cases "open_read E k archive w'")
  from same_open_read [OF assms, of E k archive] o o' have e: "a' = a" and s: "same_state w1 w1'"
    by simp_all
  show ?thesis
  proof (cases a)
    case (Inl x)
    with o o' e s show ?thesis by (simp add: decompress_with_def)
  next
    case (Inr bm)
    obtain b ms where bm: "bm = (b, ms)" by (cases bm)
    from same_extract_each [OF same_files_update [OF s, of "length ms"], of E k b out ms]
    show ?thesis using Inr bm o o' e by (simp add: decompress_with_def Let_def same_call)
  qed
qed

lemma same_decompress_7z:
  assumes "same_state w w'"
  shows "fst (decompress_7z E archive out w) = fst (decompress_7z E archive out w')
       \<and> same_state (snd (decompress_7z E archive out w)) (snd (decompress_7z E archive out w'))"
proof (cases "HAS_7Z E")
  case False
  then show ?thesis using assms by (simp add: decompress_7z_def)
next
  case True
  obtain a w1 where o: "open_read E SevenZipFile archive w = (a, w1)"
    by (cases "open_read E SevenZipFile archive w")
  obtain a' w1' where o': "open_read E SevenZipFile archive w' = (a', w1')"
    by (cases "open_read E SevenZipFile archive w'")
  from same_open_read [OF assms, of E SevenZipFile archive] o o'
  have e: "a' = a" and s: "same_state w1 w1'" by simp_all
  show ?thesis
  proof (cases a)
    case (Inl x)
    with True o o' e s show ?thesis by (simp add: decompress_7z_def)
  next
    case (Inr bm)
    obtain b ms where bm: "bm = (b, ms)" by (cases bm)
    let ?w2 = "w1\<lparr>stats_files := length ms\<rparr>"
    let ?w2' = "w1'\<lparr>stats_files := length ms\<rparr>"
    have s2: "same_state ?w2 ?w2'" by (intro same_files_update s)
    then have f: "fs ?w2' = fs ?w2" by (simp add: same_state_def)
    show ?thesis
    proof (cases "extractall E SevenZipFile b out ms (fs ?w2)")
      case None
      then have N': "extractall E SevenZipFile b out ms (fs ?w2') = None" using f by simp
      have "same_state (call CloseRead (raised (ExtractAll out) ?w2))
                       (call CloseRead (raised (ExtractAll out) ?w2'))"
        by (intro same_call same_raised s2)
      with None N' True Inr bm o o' e show ?thesis by (simp add: decompress_7z_def Let_def)
    next
      case (Some t)
      then have S': "extractall E SevenZipFile b out ms (fs ?w2') = Some t" using f by simp
      have "same_state (call CloseRead (report_each E ms (call (ExtractAll out) (?w2\<lparr>fs := t\<rparr>))))
                       (call CloseRead (report_each E ms (call (ExtractAll out) (?w2'\<lparr>fs := t\<rparr>))))"
        by (intro same_call same_report_each same_fs_update s2)
      with Some S' True Inr bm o o' e show ?thesis by (simp add: decompress_7z_def Let_def)
    qed
  qed
qed

lemma same_decompress_dispatch:
  assumes "same_state w w'"
  shows "fst (decompress_dispatch E archive out ext w) = fst (decompress_dispatch E archive out ext w')
       \<and> same_state (snd (decompress_dispatch E archive out ext w))
                     (snd (decompress_dispatch E archive out ext w'))"
  using assms same_decompress_with [OF assms] same_decompress_7z [OF assms]
  by (simp add: decompress_dispatch_def decompress_zip_def decompress_rar_def decompress_tar_def)

lemma same_decompress:
  assumes "fs w = fs w'"
  shows "fst (decompress E archive output_dir w) = fst (decompress E archive output_dir w')
       \<and> same_state (snd (decompress E archive output_dir w)) (snd (decompress E archive output_dir w'))"
proof (cases "exists (fs w) archive")
  case False
  then show ?thesis using assms same_reset [OF assms] by (simp add: decompress_def Let_def)
next
  case True
  let ?out = "case output_dir of None \<Rightarrow> Path_of_name (stem archive) | Some d \<Rightarrow> d"
  have T': "exists (fs w') archive" using True assms by simp
  show ?thesis
  proof (cases "mkdir_p (fs w) ?out")
    case None
    then have "mkdir_p (fs w') ?out = None" using assms by simp
    with None True T' same_reset [OF assms] show ?thesis by (simp add: decompress_def Let_def)
  next
    case (Some t)
    then have S': "mkdir_p (fs w') ?out = Some t" using assms by simp
    let ?w1 = "update_progress E ''Starting extraction...'' (reset_stats w\<lparr>fs := t\<rparr>)"
    let ?w1' = "update_progress E ''Starting extraction...'' (reset_stats w'\<lparr>fs := t\<rparr>)"
    let ?d = "decompress_dispatch E archive ?out (archive_ext archive) ?w1"
    let ?d' = "decompress_dispatch E archive ?out (archive_ext archive) ?w1'"
    have "same_state ?w1 ?w1'" by (intro same_update_progress same_fs_update same_reset assms)
    from same_decompress_dispatch [OF this] have a: "fst ?d = fst ?d'" and b: "same_state (snd ?d) (snd ?d')"
      by simp_all
    obtain x y where d: "?d = (x, y)" by (cases ?d)
    obtain x' y' where d': "?d' = (x', y')" by (cases ?d')
    from a b d d' have xy: "x' = x" "same_state y y'" by simp_all
    show ?thesis
    proof (cases x)
      case None
      with True T' Some S' d d' xy show ?thesis
        by (simp add: decompress_def Let_def same_state_def)
    next
      case (Some e)
      with True T' \<open>mkdir_p (fs w) ?out = Some t\<close> S' d d' xy show ?thesis
        by (simp add: decompress_def Let_def)
    qed
  qed
qed

lemma reset_reset [simp]: "reset_stats (reset_stats w) = reset_stats w"
  by (simp add: reset_stats_def)

text \<open>
  C10. \<open>compress\<close> and \<open>decompress\<close> reset the statistics first, so running them on a
  world is the same as running them on that world with the statistics already reset; and
  two runs with the same arguments on the same file tree return the same result (the
  same dictionary or the same error) and leave the same tree and statistics, whatever
  the engine did before.
\<close>

theorem results_do_not_depend_on_history:
  assumes "fs w = fs w'"
  shows "compress E source out fmt (reset_stats w) = compress E source out fmt w
       \<and> decompress E archive output_dir (reset_stats w) = decompress E archive output_dir w
       \<and> fst (compress E source out fmt w) = fst (compress E source out fmt w')
       \<and> same_state (snd (compress E source out fmt w)) (snd (compress E source out fmt w'))
       \<and> fst (decompress E archive output_dir w) = fst (decompress E archive output_dir w')
       \<and> same_state (snd (decompress E archive output_dir w)) (snd (decompress E archive output_dir w'))"
proof -
  have "compress E source out fmt (reset_stats w) = compress E source out fmt w"
    by (simp add: compress_def)
  moreover have "decompress E archive output_dir (reset_stats w) = decompress E archive output_dir w"
    by (simp add: decompress_def)
  ultimately show ?thesis
    using same_compress [OF assms] same_decompress [OF assms] by simp
qed

theorem results_do_not_depend_on_history_witness:
  "fs demo_world = fs (demo_world\<lparr>stats_files := 0, stats_size := 123, progress := [''x''],
                                  calls := [(CloseWrite, Returned)]\<rparr>)
   \<and> fst (compress demo_env [''d''] [''out.zip''] ''zip''
            (demo_world\<lparr>stats_files := 0, stats_size := 123, progress := [''x''],
                         calls := [(CloseWrite, Returned)]\<rparr>))
     = Inr \<lparr>files = 2, original_size = 7, compressed_size = 12, ratio = - (500 / 7)\<rparr>
   \<and> fst (decompress demo_env [''backup.2024.zip''] (Some [''o''])
            (demo_world\<lparr>stats_files := 0, stats_size := 123, progress := [''x''],
                         calls := [(CloseWrite, Returned)]\<rparr>))
     = Inl (ValueError ''Unsupported archive format: .2024.zip'')"
proof -
  let ?w' = "demo_world\<lparr>stats_files := 0, stats_size := 123, progress := [''x''],
                        calls := [(CloseWrite, Returned)]\<rparr>"
  have h: "fs demo_world = fs ?w'" by simp
  have a: "fst (compress demo_env [''d''] [''out.zip''] ''zip'' demo_world)
     = Inr \<lparr>files = 2, original_size = 7, compressed_size = 12, ratio = - (500 / 7)\<rparr>"
    by code_simp
  have b: "fst (decompress demo_env [''backup.2024.zip''] (Some [''o'']) demo_world)
     = Inl (ValueError ''Unsupported archive format: .2024.zip'')"
    by code_simp
  from results_do_not_depend_on_history [OF h, of demo_env "[''d'']" "[''out.zip'']" "''zip''"
      "[''backup.2024.zip'']" "Some [''o'']"] a b h
  show ?thesis by simp
qed

subsection \<open>Background threads\<close>

lemma step_start: "is_start e \<Longrightarrow> length (threads (step e g)) = Suc (length (threads g))"
  by (cases e) (simp_all add: compress_files_def extract_archive_def)

text \<open>
  C6, as the code has it. \<^verbatim>\<open>compress_files\<close> and \<^verbatim>\<open>extract_archive\<close> start their thread
  at once, without looking at the threads already running: after any number of such
  actions, none of whose threads has finished yet, that many more threads are running.
  Two actions in a row, below, leave two tasks running together.
\<close>

theorem every_start_adds_a_thread:
  assumes "list_all is_start es"
  shows "length (threads (run es g)) = length (threads g) + length es"
  using assms
proof (induction es arbitrary: g)
  case Nil
  then show ?case by simp
next
  case (Cons e es)
  then have "is_start e" and "list_all is_start es" by simp_all
  with Cons.IH [of "step e g"] step_start [of e g] show ?case by simp
qed

theorem every_start_adds_a_thread_witness:
  "list_all is_start [Compress [''d''] [''a.zip''] ''zip'', Compress [''d''] [''b.zip''] ''zip'',
                      ExtractEv [''old.rar''] None]
   \<and> length (threads (run [Compress [''d''] [''a.zip''] ''zip'', Compress [''d''] [''b.zip''] ''zip'',
                            ExtractEv [''old.rar''] None] \<lparr>threads = []\<rparr>)) = 3"
proof -
  have h: "list_all is_start [Compress [''d''] [''a.zip''] ''zip'', Compress [''d''] [''b.zip''] ''zip'',
                      ExtractEv [''old.rar''] None]" by simp
  from every_start_adds_a_thread [OF h, of "\<lparr>threads = []\<rparr>"] h show ?thesis by simp
qed

theorem two_tasks_run_at_once:
  "threads (run [Compress [''d''] [''a.zip''] ''zip'', ExtractEv [''old.rar''] None] \<lparr>threads = []\<rparr>) =
     [CompressTask [''d''] [''a.zip''] ''zip'', ExtractTask [''old.rar''] None]"
  by (simp add: compress_files_def extract_archive_def)

end
